theory Spec2Isabelle
  imports Complex_Main "HOL-Library.Word"
begin

section \<open>The OBJ lexer and parser of kabstractobjparser.cpp\<close>

text \<open>
  The development follows \<^verbatim>\<open>src/12_ObjParser/src/Karma/kabstractobjparser.cpp\<close>.
  The class \<^verbatim>\<open>KAbstractObjParserPrivate\<close> is split into the reader and lexer members
  (record \<open>lexer\<close>) and the parser members (record \<open>parser\<close>, which holds the lexer);
  member functions become functions on these records that return the updated record.
  \<^verbatim>\<open>qFatal\<close> aborts the process: a fatal error is the left summand of the result.

  Conventions of the model:
  \<^item> a character cell (\<^verbatim>\<open>int m_currChar\<close>) is a \<open>char option\<close>, \<open>None\<close> being
    \<^verbatim>\<open>KAbstractReader::EndOfFile\<close>;
  \<^item> a C++ \<^verbatim>\<open>int\<close> is an \<open>int\<close> of 32 bits in two's complement: the result of \<open>+\<close> and
    \<open>*\<close> on \<^verbatim>\<open>int\<close> is wrapped into that range (\<open>wrap_int\<close>), which is what the compiled
    program computes where the C++ standard leaves signed overflow undefined;
  \<^item> \<^verbatim>\<open>float\<close> values are the exact reals they stand for: there is no rounding and no
    infinity or NaN, and the quotient by an \<^verbatim>\<open>int\<close> that has wrapped to 0 is the 0 of
    \<open>x / 0\<close> in HOL;
  \<^item> \<^verbatim>\<open>uint64_t\<close> is \<open>64 word\<close>;
  \<^item> the array \<^verbatim>\<open>float m_float4[4]\<close> is a function of the index, of which the program
    uses 0 to 3.
\<close>

subsection \<open>Parser definitions\<close>

text \<open>The value that 32 bits in two's complement hold of an integer.\<close>

definition wrap_int :: "int \<Rightarrow> int" where
  "wrap_int i = (i + 2147483648) mod 4294967296 - 2147483648"

datatype ParseToken =
    PT_ERROR
  | PT_EOF
  | PT_VERTEX
  | PT_TEXTURE
  | PT_NORMAL
  | PT_PARAMETER
  | PT_FACE
  | PT_OBJECT
  | PT_GROUP
  | PT_ENDSTATEMENT
  | PT_STRING
  | PT_INTEGER
  | PT_FLOAT
  | PT_MATERIAL
  | PT_USEMATERIAL
  | PT_SMOOTHING
  | PT_SEPARATOR

text \<open>
  \<^verbatim>\<open>union TokenAttrib\<close>. The two members are kept as two fields. The lexer writes the
  member that matches the kind it returns, in the same call, and the parser reads
  \<open>asFloat\<close> only of a \<open>PT_FLOAT\<close> token and \<open>asInteger\<close> only of a \<open>PT_INTEGER\<close> token, so
  no read of the program observes the overlap of the two members.
\<close>

record TokenAttrib =
  asInteger :: int
  asFloat :: real

record Token =
  m_token :: ParseToken
  m_lexicon :: string
  m_attribute :: TokenAttrib

text \<open>
  \<^verbatim>\<open>ParseString\<close> is a NUL-terminated character vector; \<open>m_lexicon\<close> holds its characters
  without the terminator. \<^verbatim>\<open>data()\<close> is read as a C string, which ends at the first NUL.
\<close>

definition data :: "string \<Rightarrow> string" where
  "data str = takeWhile (\<lambda>c. c \<noteq> CHR 0x00) str"

text \<open>\<^verbatim>\<open>ParseMap sg_reserved\<close>: the reserved words, in the order of insertion.\<close>

definition sg_reserved :: "(string \<times> ParseToken) list" where
  "sg_reserved =
    [(''v'', PT_VERTEX),
     (''vt'', PT_TEXTURE),
     (''vn'', PT_NORMAL),
     (''vp'', PT_PARAMETER),
     (''f'', PT_FACE),
     (''o'', PT_OBJECT),
     (''g'', PT_GROUP),
     (''mtllib'', PT_MATERIAL),
     (''usemtl'', PT_USEMATERIAL),
     (''s'', PT_SMOOTHING)]"

text \<open>
  The character helpers of \<^verbatim>\<open>kcommon.h\<close> (namespace \<^verbatim>\<open>Karma\<close>) are not part of the
  sources at hand: they are parameters of the model. \<open>ctoi\<close> is applied to whatever the
  current character cell holds, \<^verbatim>\<open>EndOfFile\<close> included, so it is given on cells.
\<close>

record karma =
  isNumeric :: "char \<Rightarrow> bool"
  isAlpha :: "char \<Rightarrow> bool"
  ctoi :: "char option \<Rightarrow> int"
  toLower :: "char \<Rightarrow> char"

text \<open>
  Modelled from the spec: what the helpers of \<^verbatim>\<open>kcommon.h\<close> return on \<^verbatim>\<open>EndOfFile\<close>. The
  end of input ends a numeric literal or an identifier at the boundary: \<^verbatim>\<open>EndOfFile\<close> is
  neither numeric nor alphabetic, and its lower case is not \<^verbatim>\<open>'e'\<close>.
\<close>

definition isNumeric_cell :: "karma \<Rightarrow> char option \<Rightarrow> bool" where
  "isNumeric_cell K c = (case c of None \<Rightarrow> False | Some x \<Rightarrow> isNumeric K x)"

definition isAlpha_cell :: "karma \<Rightarrow> char option \<Rightarrow> bool" where
  "isAlpha_cell K c = (case c of None \<Rightarrow> False | Some x \<Rightarrow> isAlpha K x)"

definition toLower_cell :: "karma \<Rightarrow> char option \<Rightarrow> char option" where
  "toLower_cell K c = map_option (toLower K) c"

text \<open>
  The fatal errors: the \<^verbatim>\<open>LEX_ERROR\<close> of \<^verbatim>\<open>lexToken\<close> with line, column and character,
  the \<^verbatim>\<open>LEX_ERROR\<close> of \<^verbatim>\<open>expectToken\<close> with the expected and the received kind, and the
  \<^verbatim>\<open>qFatal\<close> of \<^verbatim>\<open>parse\<close>.
\<close>

datatype error =
    Unexpected_character int int char
  | Expected_token ParseToken ParseToken
  | Encountered_an_error

subsection \<open>Reader\<close>

text \<open>
  Modelled from the spec: \<^verbatim>\<open>KAbstractReader\<close> (kabstractreader.h) is not part of the sources
  at hand. Its contract is \<^verbatim>\<open>next()\<close>, giving the next character or end of input, the end
  signal being stable under repeated calls. The reader is the list of characters not
  yet delivered.
\<close>

definition reader_next :: "char list \<Rightarrow> char option \<times> char list" where
  "reader_next r = (case r of [] \<Rightarrow> (None, []) | c # cs \<Rightarrow> (Some c, cs))"

record lexer =
  m_reader :: "char list"
  m_currChar :: "char option"
  m_peekChar :: "char option"
  m_currToken :: Token
  m_peekToken :: Token
  m_currLineCount :: int
  m_currCharCount :: int

definition currChar :: "lexer \<Rightarrow> char option" where
  "currChar l = m_currChar l"

definition peekChar :: "lexer \<Rightarrow> char option" where
  "peekChar l = m_peekChar l"

text \<open>\<^verbatim>\<open>nextChar()\<close>; the character returned is \<open>m_currChar\<close> of the result.\<close>

definition nextChar :: "lexer \<Rightarrow> lexer" where
  "nextChar l =
    (let cur = m_peekChar l;
         (c, r) = reader_next (m_reader l)
     in l\<lparr>m_reader := r, m_currChar := cur, m_peekChar := c,
          m_currLineCount :=
            (if cur = Some (CHR 0x0A) then wrap_int (m_currLineCount l + 1)
             else m_currLineCount l),
          m_currCharCount :=
            (if cur = Some (CHR 0x0A) then 0 else wrap_int (m_currCharCount l + 1))\<rparr>)"

text \<open>The loop of \<^verbatim>\<open>nextLine()\<close>: read until newline, or stop at the end of input.\<close>

fun nextLine_loop :: "char option \<Rightarrow> char list \<Rightarrow> char option \<times> char list" where
  "nextLine_loop c [] = (if c = Some (CHR 0x0A) then (c, []) else (None, []))"
| "nextLine_loop c (x # xs) =
    (if c = Some (CHR 0x0A) then (c, x # xs) else nextLine_loop (Some x) xs)"

definition nextLine :: "lexer \<Rightarrow> lexer" where
  "nextLine l =
    (let (c, r) = nextLine_loop (m_peekChar l) (m_reader l);
         (p, r') = reader_next r
     in l\<lparr>m_reader := r', m_currChar := c, m_peekChar := p,
          m_currLineCount := wrap_int (m_currLineCount l + 1),
          m_currCharCount := 0\<rparr>)"

text \<open>The characters the reader and the lookahead cell still hold.\<close>

definition chars_left :: "lexer \<Rightarrow> nat" where
  "chars_left l = length (m_reader l) + (if m_peekChar l = None then 0 else 1)"

lemma chars_left_nextChar_le: "chars_left (nextChar l) \<le> chars_left l"
  by (cases "m_reader l") (simp_all add: chars_left_def nextChar_def reader_next_def Let_def)

lemma chars_left_nextChar_less:
  "m_peekChar l \<noteq> None \<Longrightarrow> chars_left (nextChar l) < chars_left l"
  by (cases "m_reader l") (simp_all add: chars_left_def nextChar_def reader_next_def Let_def)

lemma nextLine_loop_length: "length (snd (nextLine_loop c r)) \<le> length r"
  by (induction r arbitrary: c) (simp_all add: le_SucI)

lemma chars_left_nextLine_le: "chars_left (nextLine l) \<le> chars_left l"
proof -
  obtain c r where cr: "nextLine_loop (m_peekChar l) (m_reader l) = (c, r)"
    by (cases "nextLine_loop (m_peekChar l) (m_reader l)")
  have "length r \<le> length (m_reader l)"
    using nextLine_loop_length [of "m_peekChar l" "m_reader l"] cr by simp
  then show ?thesis
    by (cases r) (simp_all add: chars_left_def nextLine_def reader_next_def cr)
qed

lemma m_currChar_nextChar [simp]: "m_currChar (nextChar l) = m_peekChar l"
  by (simp add: nextChar_def Let_def split: prod.splits)

lemma tokens_nextChar [simp]:
  "m_currToken (nextChar l) = m_currToken l" "m_peekToken (nextChar l) = m_peekToken l"
  by (simp_all add: nextChar_def Let_def split: prod.splits)

lemma tokens_nextLine [simp]:
  "m_currToken (nextLine l) = m_currToken l" "m_peekToken (nextLine l) = m_peekToken l"
  by (simp_all add: nextLine_def Let_def split: prod.splits)

subsection \<open>Lexer\<close>

definition currToken :: "lexer \<Rightarrow> Token" where
  "currToken l = m_currToken l"

definition peekToken :: "lexer \<Rightarrow> Token" where
  "peekToken l = m_peekToken l"

text \<open>
  The loop of \<^verbatim>\<open>lexReadInteger()\<close>:
  \<^verbatim>\<open>while (isNumeric(m_peekChar)) { integer *= 10; integer += ctoi(nextChar()); }\<close>
\<close>

function lexReadInteger_loop :: "karma \<Rightarrow> int \<Rightarrow> lexer \<Rightarrow> int \<times> lexer" where
  "lexReadInteger_loop K integer l =
    (if isNumeric_cell K (m_peekChar l)
     then lexReadInteger_loop K
            (wrap_int (wrap_int (integer * 10) + ctoi K (m_currChar (nextChar l)))) (nextChar l)
     else (integer, l))"
  by pat_completeness auto
termination
  by (relation "measure (\<lambda>(K, i, l). chars_left l)")
     (auto simp: isNumeric_cell_def chars_left_nextChar_less split: option.splits)

declare lexReadInteger_loop.simps [simp del]

definition lexReadInteger :: "karma \<Rightarrow> lexer \<Rightarrow> int \<times> lexer" where
  "lexReadInteger K l =
    (let sign = (if m_currChar l = Some (CHR ''-'') then - 1 else 1);
         integer = (if m_currChar l = Some (CHR ''-'') then 0
                    else if m_currChar l = Some (CHR ''+'') then 0
                    else ctoi K (m_currChar l));
         (integer', l') = lexReadInteger_loop K integer l
     in (wrap_int (sign * integer'), l'))"

text \<open>The loop of \<^verbatim>\<open>lexReadInteger(int *power)\<close>, which also multiplies \<open>pow\<close>.\<close>

function lexReadIntegerPower_loop :: "karma \<Rightarrow> int \<Rightarrow> int \<Rightarrow> lexer \<Rightarrow> int \<times> int \<times> lexer" where
  "lexReadIntegerPower_loop K pow integer l =
    (if isNumeric_cell K (m_peekChar l)
     then lexReadIntegerPower_loop K (wrap_int (pow * 10))
            (wrap_int (wrap_int (integer * 10) + ctoi K (m_currChar (nextChar l)))) (nextChar l)
     else (pow, integer, l))"
  by pat_completeness auto
termination
  by (relation "measure (\<lambda>(K, p, i, l). chars_left l)")
     (auto simp: isNumeric_cell_def chars_left_nextChar_less split: option.splits)

declare lexReadIntegerPower_loop.simps [simp del]

text \<open>\<^verbatim>\<open>lexReadInteger(int *power)\<close>: the result is \<open>(*power, value, lexer)\<close>.\<close>

definition lexReadIntegerPower :: "karma \<Rightarrow> lexer \<Rightarrow> int \<times> int \<times> lexer" where
  "lexReadIntegerPower K l =
    (let sign = (if m_currChar l = Some (CHR ''-'') then - 1 else 1);
         integer = (if m_currChar l = Some (CHR ''-'') then 0
                    else if m_currChar l = Some (CHR ''+'') then 0
                    else ctoi K (m_currChar l));
         (pow, integer', l') = lexReadIntegerPower_loop K 1 integer l
     in (pow, wrap_int (sign * integer'), l'))"

text \<open>
  In the source the local variables \<^verbatim>\<open>power\<close> are named \<open>pwr\<close> here.

  The functions below are called with \<^verbatim>\<open>Token &token\<close> bound to \<open>m_peekToken\<close> (the one
  call of \<^verbatim>\<open>lexToken\<close> is in \<^verbatim>\<open>nextToken\<close>): they update \<open>m_peekToken\<close> in the lexer and
  return the token kind with it.
\<close>

definition set_asInteger :: "int \<Rightarrow> lexer \<Rightarrow> lexer" where
  "set_asInteger i l =
    l\<lparr>m_peekToken := (m_peekToken l)\<lparr>m_attribute := (m_attribute (m_peekToken l))\<lparr>asInteger := i\<rparr>\<rparr>\<rparr>"

definition set_asFloat :: "real \<Rightarrow> lexer \<Rightarrow> lexer" where
  "set_asFloat v l =
    l\<lparr>m_peekToken := (m_peekToken l)\<lparr>m_attribute := (m_attribute (m_peekToken l))\<lparr>asFloat := v\<rparr>\<rparr>\<rparr>"

definition set_lexicon :: "string \<Rightarrow> lexer \<Rightarrow> lexer" where
  "set_lexicon str l = l\<lparr>m_peekToken := (m_peekToken l)\<lparr>m_lexicon := str\<rparr>\<rparr>"

text \<open>\<^verbatim>\<open>std::powf(10.0f, power)\<close>\<close>

definition powf10 :: "int \<Rightarrow> real" where
  "powf10 pwr = (if 0 \<le> pwr then 10 ^ nat pwr else 1 / 10 ^ nat (- pwr))"

definition lexTokenFloatExponent :: "karma \<Rightarrow> real \<Rightarrow> lexer \<Rightarrow> ParseToken \<times> lexer" where
  "lexTokenFloatExponent K val l =
    (let (pwr, l') = lexReadInteger K l
     in (PT_FLOAT, set_asFloat (val * powf10 pwr) l'))"

definition lexTokenFloat :: "karma \<Rightarrow> int \<Rightarrow> lexer \<Rightarrow> ParseToken \<times> lexer" where
  "lexTokenFloat K integer l =
    (let (pwr, fraction, l') = lexReadIntegerPower K l;
         decimal = real_of_int fraction / real_of_int pwr;
         val = (if integer \<ge> 0 then real_of_int integer + decimal
                else real_of_int integer - decimal)
     in if toLower_cell K (m_peekChar l') = Some (CHR ''e'')
        then lexTokenFloatExponent K val (nextChar (nextChar l'))
        else (PT_FLOAT, set_asFloat val l'))"

definition lexTokenInteger :: "karma \<Rightarrow> lexer \<Rightarrow> ParseToken \<times> lexer" where
  "lexTokenInteger K l =
    (let (integer, l') = lexReadInteger K l
     in if m_peekChar l' = Some (CHR ''.'')
        then lexTokenFloat K integer (nextChar (nextChar l'))
        else (PT_INTEGER, set_asInteger integer l'))"

lemma chars_left_set [simp]:
  "chars_left (set_asInteger i l) = chars_left l"
  "chars_left (set_asFloat v l) = chars_left l"
  "chars_left (set_lexicon str l) = chars_left l"
  by (simp_all add: chars_left_def set_asInteger_def set_asFloat_def set_lexicon_def)

definition symResolve :: "lexer \<Rightarrow> ParseToken \<Rightarrow> ParseToken" where
  "symResolve l t =
    (case map_of sg_reserved (data (m_lexicon (m_peekToken l))) of
       Some r \<Rightarrow> r
     | None \<Rightarrow> t)"

text \<open>
  The loop of \<^verbatim>\<open>lexTokenIdentifier\<close>:
  \<^verbatim>\<open>if (isAlpha(m_peekChar)) token.m_lexicon += nextChar(); else return symResolve(...)\<close>
\<close>

function lexTokenIdentifier_loop :: "karma \<Rightarrow> lexer \<Rightarrow> ParseToken \<times> lexer" where
  "lexTokenIdentifier_loop K l =
    (case m_peekChar l of
       None \<Rightarrow> (symResolve l PT_STRING, l)
     | Some x \<Rightarrow>
         if isAlpha K x
         then lexTokenIdentifier_loop K
                (set_lexicon (m_lexicon (m_peekToken l) @ [x]) (nextChar l))
         else (symResolve l PT_STRING, l))"
  by pat_completeness auto
termination
  by (relation "measure (\<lambda>(K, l). chars_left l)")
     (auto simp: chars_left_nextChar_less)

declare lexTokenIdentifier_loop.simps [simp del]

text \<open>
  \<^verbatim>\<open>lexTokenIdentifier\<close> is entered with \<open>m_currChar = Some c\<close>, \<open>c\<close> alphabetic;
  \<^verbatim>\<open>token.m_lexicon = m_currChar\<close> makes the lexicon the one character \<open>c\<close>.
\<close>

definition lexTokenIdentifier :: "karma \<Rightarrow> char \<Rightarrow> lexer \<Rightarrow> ParseToken \<times> lexer" where
  "lexTokenIdentifier K c l = lexTokenIdentifier_loop K (set_lexicon [c] l)"

text \<open>
  The tokenization loop of \<^verbatim>\<open>lexToken\<close>: the \<^verbatim>\<open>switch (nextChar())\<close>, its cases in
  the order of the source. The character that \<^verbatim>\<open>nextChar()\<close> returns is the lookahead
  cell of the lexer it is called on.
\<close>

function lexToken_loop :: "karma \<Rightarrow> lexer \<Rightarrow> error + ParseToken \<times> lexer" where
  "lexToken_loop K l =
    (case m_peekChar l of
       None \<Rightarrow> Inr (PT_EOF, nextChar l)
     | Some c \<Rightarrow>
         if c = CHR '' '' \<or> c = CHR 0x09 \<or> c = CHR 0x0D then lexToken_loop K (nextChar l)
         else if c = CHR 0x0A then Inr (PT_ENDSTATEMENT, nextChar l)
         else if c = CHR ''#'' then Inr (PT_ENDSTATEMENT, nextLine (nextChar l))
         else if c = CHR ''/'' then Inr (PT_SEPARATOR, nextChar l)
         else if isNumeric K c then Inr (lexTokenInteger K (nextChar l))
         else if isAlpha K c then Inr (lexTokenIdentifier K c (nextChar l))
         else Inl (Unexpected_character (m_currLineCount (nextChar l))
                     (m_currCharCount (nextChar l)) c))"
  by pat_completeness auto
termination
  by (relation "measure (\<lambda>(K, l). chars_left l)")
     (auto simp: chars_left_nextChar_less)

declare lexToken_loop.simps [simp del]

text \<open>
  \<^verbatim>\<open>lexToken\<close>: the line of an unimplemented feature is skipped when the token after
  its keyword is requested, then the next token is read.
\<close>

definition lexToken :: "karma \<Rightarrow> lexer \<Rightarrow> error + ParseToken \<times> lexer" where
  "lexToken K l =
    lexToken_loop K
      (case m_token (currToken l) of
         PT_GROUP \<Rightarrow> nextLine l
       | PT_OBJECT \<Rightarrow> nextLine l
       | PT_SMOOTHING \<Rightarrow> nextLine l
       | PT_MATERIAL \<Rightarrow> nextLine l
       | _ \<Rightarrow> l)"

text \<open>\<^verbatim>\<open>Token::swap\<close> of \<open>m_currToken\<close> with \<open>m_peekToken\<close>.\<close>

definition swap_tokens :: "lexer \<Rightarrow> lexer" where
  "swap_tokens l = l\<lparr>m_currToken := m_peekToken l, m_peekToken := m_currToken l\<rparr>"

text \<open>\<^verbatim>\<open>nextToken()\<close>; the token returned is \<open>m_currToken\<close> of the result.\<close>

definition nextToken :: "karma \<Rightarrow> lexer \<Rightarrow> error + lexer" where
  "nextToken K l =
    (case lexToken K (swap_tokens l) of
       Inl e \<Rightarrow> Inl e
     | Inr (t, l') \<Rightarrow> Inr (l'\<lparr>m_peekToken := (m_peekToken l')\<lparr>m_token := t\<rparr>\<rparr>))"

definition expectToken :: "karma \<Rightarrow> ParseToken \<Rightarrow> lexer \<Rightarrow> error + lexer" where
  "expectToken K t l =
    (case nextToken K l of
       Inl e \<Rightarrow> Inl e
     | Inr l' \<Rightarrow>
         if m_token (m_currToken l') \<noteq> t
         then Inl (Expected_token t (m_token (m_currToken l')))
         else Inr l')"

definition checkToken :: "karma \<Rightarrow> ParseToken \<Rightarrow> lexer \<Rightarrow> error + bool \<times> lexer" where
  "checkToken K t l =
    (if m_token (peekToken l) = t
     then (case nextToken K l of Inl e \<Rightarrow> Inl e | Inr l' \<Rightarrow> Inr (True, l'))
     else Inr (False, l))"

subsection \<open>What a call of the lexer consumes\<close>

text \<open>
  \<open>tokens_left\<close> bounds the number of tokens that can still be requested before the
  current token is \<open>PT_EOF\<close>; it is the measure of the loops of the parser.
  \<open>advances l l'\<close>: the lexer \<open>l'\<close> has the current token of \<open>l\<close> and has not more
  characters left.
\<close>

definition tokens_left :: "lexer \<Rightarrow> nat" where
  "tokens_left l = chars_left l + (if m_token (m_peekToken l) = PT_EOF then 0 else 1)"

definition advances :: "lexer \<Rightarrow> lexer \<Rightarrow> bool" where
  "advances l l' \<longleftrightarrow> m_currToken l' = m_currToken l \<and> chars_left l' \<le> chars_left l"

lemma advances_refl [simp]: "advances l l"
  by (simp add: advances_def)

lemma advances_trans: "advances l l' \<Longrightarrow> advances l' l'' \<Longrightarrow> advances l l''"
  by (simp add: advances_def)

lemma advances_nextChar [simp]: "advances l (nextChar l)"
  by (simp add: advances_def chars_left_nextChar_le)

lemma advances_nextLine [simp]: "advances l (nextLine l)"
  by (simp add: advances_def chars_left_nextLine_le)

lemma advances_set [simp]:
  "advances l (set_asInteger i l') = advances l l'"
  "advances l (set_asFloat v l') = advances l l'"
  "advances l (set_lexicon str l') = advances l l'"
  by (simp_all add: advances_def)
     (simp_all add: set_asInteger_def set_asFloat_def set_lexicon_def)

lemma advances_lexReadInteger_loop: "advances l (snd (lexReadInteger_loop K i l))"
proof (induction K i l rule: lexReadInteger_loop.induct)
  case (1 K integer l)
  show ?case
  proof (cases "isNumeric_cell K (m_peekChar l)")
    case True
    with 1 have "advances (nextChar l) (snd (lexReadInteger_loop K integer l))"
      by (subst lexReadInteger_loop.simps) simp
    then show ?thesis by (rule advances_trans [OF advances_nextChar])
  next
    case False
    then show ?thesis by (subst lexReadInteger_loop.simps) simp
  qed
qed

lemma advances_lexReadIntegerPower_loop:
  "advances l (snd (snd (lexReadIntegerPower_loop K pw i l)))"
proof (induction K pw i l rule: lexReadIntegerPower_loop.induct)
  case (1 K pw integer l)
  show ?case
  proof (cases "isNumeric_cell K (m_peekChar l)")
    case True
    with 1 have "advances (nextChar l) (snd (snd (lexReadIntegerPower_loop K pw integer l)))"
      by (subst lexReadIntegerPower_loop.simps) simp
    then show ?thesis by (rule advances_trans [OF advances_nextChar])
  next
    case False
    then show ?thesis by (subst lexReadIntegerPower_loop.simps) simp
  qed
qed

lemma advances_lexReadInteger: "advances l (snd (lexReadInteger K l))"
proof -
  have "advances l (snd (lexReadInteger_loop K i l))" for i
    by (rule advances_lexReadInteger_loop)
  then show ?thesis
    by (simp add: lexReadInteger_def Let_def split_beta)
qed

lemma advances_lexReadIntegerPower: "advances l (snd (snd (lexReadIntegerPower K l)))"
proof -
  have "advances l (snd (snd (lexReadIntegerPower_loop K pw i l)))" for pw i
    by (rule advances_lexReadIntegerPower_loop)
  then show ?thesis
    by (simp add: lexReadIntegerPower_def Let_def split_beta)
qed

lemma advances_lexTokenFloatExponent: "advances l (snd (lexTokenFloatExponent K v l))"
  using advances_lexReadInteger [of l K]
  by (simp add: lexTokenFloatExponent_def split_beta)

lemma advances_nextChar2: "advances l (nextChar (nextChar l))"
  by (rule advances_trans [OF advances_nextChar advances_nextChar])

lemma advances_lexTokenFloat: "advances l (snd (lexTokenFloat K i l))"
proof -
  obtain pw fr l' where r: "lexReadIntegerPower K l = (pw, fr, l')"
    by (cases "lexReadIntegerPower K l") auto
  then have a: "advances l l'"
    using advances_lexReadIntegerPower [of l K] by simp
  have b: "advances l (snd (lexTokenFloatExponent K v (nextChar (nextChar l'))))" for v
    by (rule advances_trans [OF a advances_trans [OF advances_nextChar2 advances_lexTokenFloatExponent]])
  show ?thesis
    using a b by (simp add: lexTokenFloat_def r Let_def)
qed

lemma advances_lexTokenInteger: "advances l (snd (lexTokenInteger K l))"
proof -
  obtain i l' where r: "lexReadInteger K l = (i, l')"
    by (cases "lexReadInteger K l") auto
  then have a: "advances l l'"
    using advances_lexReadInteger [of l K] by simp
  have b: "advances l (snd (lexTokenFloat K i (nextChar (nextChar l'))))"
    by (rule advances_trans [OF a advances_trans [OF advances_nextChar2 advances_lexTokenFloat]])
  show ?thesis
    using a b by (simp add: lexTokenInteger_def r)
qed

lemma advances_lexTokenIdentifier_loop: "advances l (snd (lexTokenIdentifier_loop K l))"
proof (induction K l rule: lexTokenIdentifier_loop.induct)
  case (1 K l)
  show ?case
  proof (cases "m_peekChar l")
    case None
    then show ?thesis by (subst lexTokenIdentifier_loop.simps) simp
  next
    case (Some x)
    show ?thesis
    proof (cases "isAlpha K x")
      case True
      with 1 Some have
        "advances (set_lexicon (m_lexicon (m_peekToken l) @ [x]) (nextChar l))
           (snd (lexTokenIdentifier_loop K l))"
        by (subst lexTokenIdentifier_loop.simps) simp
      moreover have "advances l (set_lexicon (m_lexicon (m_peekToken l) @ [x]) (nextChar l))"
        by simp
      ultimately show ?thesis by (rule advances_trans [rotated])
    next
      case False
      with Some show ?thesis by (subst lexTokenIdentifier_loop.simps) simp
    qed
  qed
qed

lemma advances_lexTokenIdentifier: "advances l (snd (lexTokenIdentifier K c l))"
proof -
  have "advances l (set_lexicon [c] l)"
    by simp
  then show ?thesis
    unfolding lexTokenIdentifier_def
    by (rule advances_trans [OF _ advances_lexTokenIdentifier_loop])
qed


lemma advances_less: "advances (nextChar l) l' \<Longrightarrow> m_peekChar l \<noteq> None \<Longrightarrow>
    advances l l' \<and> chars_left l' < chars_left l"
  using chars_left_nextChar_less [of l] by (auto simp: advances_def)

lemma lexToken_loop_advances:
  "lexToken_loop K l = Inr (t, l') \<Longrightarrow>
     advances l l' \<and> (t \<noteq> PT_EOF \<longrightarrow> chars_left l' < chars_left l)"
proof (induction K l rule: lexToken_loop.induct)
  case (1 K l)
  show ?case
  proof (cases "m_peekChar l")
    case None
    with "1.prems" show ?thesis
      by (subst (asm) lexToken_loop.simps) auto
  next
    case (Some c)
    have "advances (nextChar l) l'"
    proof (cases "c = CHR '' '' \<or> c = CHR 0x09 \<or> c = CHR 0x0D")
      case True
      with "1.prems" Some have "lexToken_loop K (nextChar l) = Inr (t, l')"
        by (subst (asm) lexToken_loop.simps) simp
      with "1.IH" Some True show ?thesis by blast
    next
      case False
      with "1.prems" Some show ?thesis
        using advances_lexTokenInteger [of "nextChar l" K]
          advances_lexTokenIdentifier [of "nextChar l" K c]
        by (subst (asm) lexToken_loop.simps) (auto split: if_splits)
    qed
    with Some show ?thesis
      using advances_less [of l l'] by simp
  qed
qed

lemma lexToken_advances:
  assumes "lexToken K l = Inr (t, l')"
  shows "advances l l' \<and> (t \<noteq> PT_EOF \<longrightarrow> chars_left l' < chars_left l)"
proof -
  obtain l0 where l0: "lexToken_loop K l0 = Inr (t, l')" and a: "advances l l0"
    using assms unfolding lexToken_def currToken_def
    by (cases "m_token (m_currToken l)") auto
  from lexToken_loop_advances [OF l0] a show ?thesis
    by (auto simp: advances_def)
qed

lemma nextToken_currToken: "nextToken K l = Inr l' \<Longrightarrow> m_currToken l' = m_peekToken l"
  by (auto simp: nextToken_def swap_tokens_def advances_def
           split: sum.splits prod.splits dest!: lexToken_advances)

lemma nextToken_tokens_left:
  assumes "nextToken K l = Inr l'"
  shows "tokens_left l' \<le> tokens_left l"
    and "m_token (m_peekToken l) \<noteq> PT_EOF \<Longrightarrow> tokens_left l' < tokens_left l"
proof -
  obtain t l1 where lx: "lexToken K (swap_tokens l) = Inr (t, l1)"
    and l': "l' = l1\<lparr>m_peekToken := (m_peekToken l1)\<lparr>m_token := t\<rparr>\<rparr>"
    using assms by (auto simp: nextToken_def split: sum.splits prod.splits)
  have c: "chars_left (swap_tokens l) = chars_left l" "chars_left l' = chars_left l1"
    by (simp_all add: chars_left_def swap_tokens_def l')
  from lexToken_advances [OF lx] c
  have le: "chars_left l' \<le> chars_left l"
    and lt: "t \<noteq> PT_EOF \<Longrightarrow> chars_left l' < chars_left l"
    by (simp_all add: advances_def)
  have t: "m_token (m_peekToken l') = t"
    by (simp add: l')
  show "tokens_left l' \<le> tokens_left l"
    using le lt t by (cases "t = PT_EOF") (simp_all add: tokens_left_def)
  show "tokens_left l' < tokens_left l" if "m_token (m_peekToken l) \<noteq> PT_EOF"
    using le lt t that by (cases "t = PT_EOF") (simp_all add: tokens_left_def)
qed

subsection \<open>Parser\<close>

text \<open>
  The header \<^verbatim>\<open>kabstractobjparser.h\<close> is not part of the sources at hand. \<^verbatim>\<open>index_type\<close>
  is \<^verbatim>\<open>uint64_t\<close>, the type of the argument of \<^verbatim>\<open>parseInteger\<close>, to which
  \<^verbatim>\<open>parseFaceIndices\<close> passes the elements of its argument \<^verbatim>\<open>index_type indices[3]\<close>;
  \<^verbatim>\<open>index_array\<close> is an array of three of them, which \<^verbatim>\<open>index_array()\<close> initializes to
  zero.
\<close>

type_synonym index_type = "64 word"
type_synonym index_array = "index_type \<times> index_type \<times> index_type"

text \<open>
  The calls made on the sink \<^verbatim>\<open>m_parser\<close>. A float callback receives the pointer
  \<^verbatim>\<open>m_float4\<close>: the event records the four floats it points to at the time of the call.
  \<^verbatim>\<open>onFace\<close> receives the pointer to the index arrays of \<open>m_vector_index_array\<close> and
  the count: the event records the arrays of the vector and the count.
\<close>

datatype event =
    OnVertex "real list"
  | OnTexture "real list"
  | OnNormal "real list"
  | OnParameter "real list"
  | OnFace "index_array list" nat

record parser =
  m_lexer :: lexer
  m_vertexCount :: "64 word"
  m_textureCount :: "64 word"
  m_normalCount :: "64 word"
  m_parameterCount :: "64 word"
  m_faceCount :: "64 word"
  m_float4 :: "nat \<Rightarrow> real"
  m_vector_index_array :: "index_array list"
  m_parser :: "event list"

definition and_then :: "error + 'a \<Rightarrow> ('a \<Rightarrow> error + 'b) \<Rightarrow> error + 'b" where
  "and_then r f = (case r of Inl e \<Rightarrow> Inl e | Inr x \<Rightarrow> f x)"

text \<open>
  \<^verbatim>\<open>parseFloat(float &f)\<close>: the argument \<open>f\<close> is the value of the referenced variable
  before the call, the second component of the result its value after the call.
\<close>

definition parseFloat :: "karma \<Rightarrow> real \<Rightarrow> lexer \<Rightarrow> error + bool \<times> real \<times> lexer" where
  "parseFloat K f l =
    (case m_token (peekToken l) of
       PT_FLOAT \<Rightarrow>
         and_then (nextToken K l)
           (\<lambda>l'. Inr (True, asFloat (m_attribute (m_currToken l')), l'))
     | PT_INTEGER \<Rightarrow>
         and_then (nextToken K l)
           (\<lambda>l'. Inr (True, real_of_int (asInteger (m_attribute (m_currToken l'))), l'))
     | _ \<Rightarrow> Inr (False, f, l))"

text \<open>\<^verbatim>\<open>parseInteger(uint64_t &i)\<close>, with the same convention.\<close>

definition parseInteger :: "karma \<Rightarrow> index_type \<Rightarrow> lexer \<Rightarrow> error + bool \<times> index_type \<times> lexer" where
  "parseInteger K i l =
    (if m_token (peekToken l) = PT_INTEGER
     then and_then (nextToken K l)
            (\<lambda>l'. Inr (True, word_of_int (asInteger (m_attribute (m_currToken l'))), l'))
     else Inr (False, i, l))"

text \<open>\<^verbatim>\<open>parseFloat(m_float4[i])\<close>\<close>

definition parseFloat_at :: "karma \<Rightarrow> nat \<Rightarrow> parser \<Rightarrow> error + bool \<times> parser" where
  "parseFloat_at K i p =
    and_then (parseFloat K (m_float4 p i) (m_lexer p))
      (\<lambda>(b, f, l). Inr (b, p\<lparr>m_lexer := l, m_float4 := (m_float4 p)(i := f)\<rparr>))"

definition float4 :: "parser \<Rightarrow> real list" where
  "float4 p = [m_float4 p 0, m_float4 p 1, m_float4 p 2, m_float4 p 3]"

definition emit :: "event \<Rightarrow> parser \<Rightarrow> parser" where
  "emit ev p = p\<lparr>m_parser := m_parser p @ [ev]\<rparr>"

definition parseVertex :: "karma \<Rightarrow> parser \<Rightarrow> error + parser" where
  "parseVertex K p =
    and_then (parseFloat_at K 0 (p\<lparr>m_vertexCount := m_vertexCount p + 1\<rparr>)) (\<lambda>(b0, p0).
    and_then (parseFloat_at K 1 p0) (\<lambda>(b1, p1).
    and_then (parseFloat_at K 2 p1) (\<lambda>(b2, p2).
    and_then (parseFloat_at K 3 p2) (\<lambda>(b3, p3).
      let p4 = (if \<not> b3 then p3\<lparr>m_float4 := (m_float4 p3)(3 := 1)\<rparr> else p3)
      in Inr (emit (OnVertex (float4 p4)) p4)))))"

definition parseTexture :: "karma \<Rightarrow> parser \<Rightarrow> error + parser" where
  "parseTexture K p =
    and_then (parseFloat_at K 0 (p\<lparr>m_textureCount := m_textureCount p + 1\<rparr>)) (\<lambda>(b0, p0).
    and_then (parseFloat_at K 1 p0) (\<lambda>(b1, p1).
    and_then (parseFloat_at K 2 p1) (\<lambda>(b2, p2).
      let p3 = (if \<not> b2 then p2\<lparr>m_float4 := (m_float4 p2)(2 := 1)\<rparr> else p2)
      in Inr (emit (OnTexture (float4 p3)) p3))))"

definition parseNormal :: "karma \<Rightarrow> parser \<Rightarrow> error + parser" where
  "parseNormal K p =
    and_then (parseFloat_at K 0 (p\<lparr>m_normalCount := m_normalCount p + 1\<rparr>)) (\<lambda>(b0, p0).
    and_then (parseFloat_at K 1 p0) (\<lambda>(b1, p1).
    and_then (parseFloat_at K 2 p1) (\<lambda>(b2, p2).
      Inr (emit (OnNormal (float4 p2)) p2))))"

definition parseParameter :: "karma \<Rightarrow> parser \<Rightarrow> error + parser" where
  "parseParameter K p =
    and_then (parseFloat_at K 0 (p\<lparr>m_parameterCount := m_parameterCount p + 1\<rparr>)) (\<lambda>(b0, p0).
    and_then (parseFloat_at K 1 p0) (\<lambda>(b1, p1).
      if \<not> b1
      then (let p2 = p1\<lparr>m_float4 := (m_float4 p1)(1 := 0)\<rparr>
            in Inr (emit (OnParameter (float4 p2)) p2))
      else and_then (parseFloat_at K 2 p1) (\<lambda>(b2, p2).
             let p3 = (if \<not> b2 then p2\<lparr>m_float4 := (m_float4 p2)(2 := 0)\<rparr> else p2)
             in Inr (emit (OnParameter (float4 p3)) p3))))"

text \<open>
  One of the two blocks of \<^verbatim>\<open>parseFaceIndices\<close> that follow the vertex index
  (the texture block and the normal block are the same code on \<^verbatim>\<open>indices[1]\<close> and
  \<^verbatim>\<open>indices[2]\<close>): after a separator the integer, if any; 0 otherwise.
\<close>

definition parseFaceIndices_sub :: "karma \<Rightarrow> index_type \<Rightarrow> lexer \<Rightarrow> error + index_type \<times> lexer" where
  "parseFaceIndices_sub K i l =
    and_then (checkToken K PT_SEPARATOR l) (\<lambda>(sep, l1).
      if sep
      then and_then (parseInteger K i l1) (\<lambda>(b, i', l2). Inr (if \<not> b then 0 else i', l2))
      else Inr (0, l1))"

definition parseFaceIndices :: "karma \<Rightarrow> index_array \<Rightarrow> lexer \<Rightarrow> error + bool \<times> index_array \<times> lexer" where
  "parseFaceIndices K indices l =
    (case indices of (i0, i1, i2) \<Rightarrow>
      and_then (parseInteger K i0 l) (\<lambda>(b, i0', l0).
        if \<not> b then Inr (False, (i0', i1, i2), l0)
        else and_then (parseFaceIndices_sub K i1 l0) (\<lambda>(i1', l1).
             and_then (parseFaceIndices_sub K i2 l1) (\<lambda>(i2', l2).
               Inr (True, (i0', i1', i2'), l2)))))"

lemma and_then_Inr:
  "and_then r f = Inr y \<longleftrightarrow> (\<exists>x. r = Inr x \<and> f x = Inr y)"
  by (cases r) (simp_all add: and_then_def)

lemma and_then_Inl:
  "and_then r f = Inl e \<longleftrightarrow> r = Inl e \<or> (\<exists>x. r = Inr x \<and> f x = Inl e)"
  by (cases r) (simp_all add: and_then_def)

lemma parseFloat_tokens_left:
  "parseFloat K f l = Inr (b, f', l') \<Longrightarrow> tokens_left l' \<le> tokens_left l"
  by (auto simp: parseFloat_def peekToken_def and_then_Inr
           split: ParseToken.splits dest: nextToken_tokens_left(1))

lemma parseFloat_at_tokens_left:
  "parseFloat_at K i p = Inr (b, p') \<Longrightarrow> tokens_left (m_lexer p') \<le> tokens_left (m_lexer p)"
  by (auto simp: parseFloat_at_def and_then_Inr dest: parseFloat_tokens_left)

lemma parseVertex_tokens_left:
  "parseVertex K p = Inr p' \<Longrightarrow> tokens_left (m_lexer p') \<le> tokens_left (m_lexer p)"
  by (fastforce simp: parseVertex_def and_then_Inr emit_def Let_def
           dest!: parseFloat_at_tokens_left split: if_splits)

lemma parseTexture_tokens_left:
  "parseTexture K p = Inr p' \<Longrightarrow> tokens_left (m_lexer p') \<le> tokens_left (m_lexer p)"
  by (fastforce simp: parseTexture_def and_then_Inr emit_def Let_def
           dest!: parseFloat_at_tokens_left split: if_splits)

lemma parseNormal_tokens_left:
  "parseNormal K p = Inr p' \<Longrightarrow> tokens_left (m_lexer p') \<le> tokens_left (m_lexer p)"
  by (fastforce simp: parseNormal_def and_then_Inr emit_def Let_def
           dest!: parseFloat_at_tokens_left split: if_splits)

lemma parseParameter_tokens_left:
  "parseParameter K p = Inr p' \<Longrightarrow> tokens_left (m_lexer p') \<le> tokens_left (m_lexer p)"
  by (fastforce simp: parseParameter_def and_then_Inr emit_def Let_def
           dest!: parseFloat_at_tokens_left split: if_splits)

lemma parseInteger_tokens_left:
  assumes "parseInteger K i l = Inr (b, i', l')"
  shows "tokens_left l' \<le> tokens_left l" and "b \<Longrightarrow> tokens_left l' < tokens_left l"
  using assms
  by (auto simp: parseInteger_def peekToken_def and_then_Inr
           split: if_splits dest: nextToken_tokens_left)

lemma checkToken_tokens_left:
  "checkToken K t l = Inr (b, l') \<Longrightarrow> tokens_left l' \<le> tokens_left l"
  by (auto simp: checkToken_def split: if_splits sum.splits dest: nextToken_tokens_left(1))

lemma parseFaceIndices_sub_tokens_left:
  "parseFaceIndices_sub K i l = Inr (i', l') \<Longrightarrow> tokens_left l' \<le> tokens_left l"
  by (fastforce simp: parseFaceIndices_sub_def and_then_Inr
           split: if_splits dest: checkToken_tokens_left parseInteger_tokens_left(1))

lemma parseFaceIndices_tokens_left:
  assumes "parseFaceIndices K ix l = Inr (b, ix', l')"
  shows "tokens_left l' \<le> tokens_left l" and "b \<Longrightarrow> tokens_left l' < tokens_left l"
  using assms
  by (fastforce simp: parseFaceIndices_def and_then_Inr
           split: if_splits prod.splits
           dest: parseFaceIndices_sub_tokens_left parseInteger_tokens_left)+


text \<open>
  The loop of \<^verbatim>\<open>parseFace\<close>:
  \<^verbatim>\<open>do { v.push_back(index_array()); } while (parseFaceIndices(v.back().data()));\<close>
  \<^verbatim>\<open>index_array()\<close> is the array of three zeros.
\<close>

function parseFace_loop :: "karma \<Rightarrow> index_array list \<Rightarrow> lexer \<Rightarrow> error + index_array list \<times> lexer" where
  "parseFace_loop K v l =
    (case parseFaceIndices K (0, 0, 0) l of
       Inl e \<Rightarrow> Inl e
     | Inr (b, indices, l') \<Rightarrow>
         if b then parseFace_loop K (v @ [indices]) l' else Inr (v @ [indices], l'))"
  by pat_completeness auto
termination
  by (relation "measure (\<lambda>(K, v, l). tokens_left l)")
     (auto dest: parseFaceIndices_tokens_left(2))

declare parseFace_loop.simps [simp del]

definition parseFace :: "karma \<Rightarrow> parser \<Rightarrow> error + parser" where
  "parseFace K p =
    and_then (parseFace_loop K [] (m_lexer p)) (\<lambda>(v, l).
      let p' = p\<lparr>m_lexer := l, m_vector_index_array := v\<rparr>
      in Inr (emit (OnFace v (length v - 1)) p'))"

lemma parseFace_loop_tokens_left:
  "parseFace_loop K v l = Inr (v', l') \<Longrightarrow> tokens_left l' \<le> tokens_left l"
proof (induction K v l rule: parseFace_loop.induct)
  case (1 K v l)
  from "1.prems" obtain b ix l1 where r: "parseFaceIndices K (0, 0, 0) l = Inr (b, ix, l1)"
    by (subst (asm) parseFace_loop.simps) (auto split: sum.splits)
  show ?case
  proof (cases b)
    case True
    with "1.prems" r have "parseFace_loop K (v @ [ix]) l1 = Inr (v', l')"
      by (subst (asm) parseFace_loop.simps) simp
    with "1.IH" r True have "tokens_left l' \<le> tokens_left l1"
      by simp
    with parseFaceIndices_tokens_left(1) [OF r] show ?thesis
      by linarith
  next
    case False
    with "1.prems" r have "l' = l1"
      by (subst (asm) parseFace_loop.simps) simp
    with parseFaceIndices_tokens_left(1) [OF r] show ?thesis
      by simp
  qed
qed

lemma parseFace_tokens_left:
  "parseFace K p = Inr p' \<Longrightarrow> tokens_left (m_lexer p') \<le> tokens_left (m_lexer p)"
  by (auto simp: parseFace_def and_then_Inr emit_def Let_def dest: parseFace_loop_tokens_left)

text \<open>
  \<^verbatim>\<open>parse()\<close>: the dispatch loop. \<open>PT_FACE\<close> falls through to \<open>PT_ENDSTATEMENT\<close>, which
  breaks; a token of any other kind leaves the \<^verbatim>\<open>switch\<close> at once.
\<close>

function parse :: "karma \<Rightarrow> parser \<Rightarrow> error + bool \<times> parser" where
  "parse K p =
    (case nextToken K (m_lexer p) of
       Inl e \<Rightarrow> Inl e
     | Inr l \<Rightarrow>
        (case m_token (m_currToken l) of
           PT_ERROR \<Rightarrow> Inl Encountered_an_error
         | PT_EOF \<Rightarrow> Inr (True, p\<lparr>m_lexer := l\<rparr>)
         | PT_VERTEX \<Rightarrow>
             (case parseVertex K (p\<lparr>m_lexer := l\<rparr>) of
                Inl e \<Rightarrow> Inl e | Inr p' \<Rightarrow> parse K p')
         | PT_TEXTURE \<Rightarrow>
             (case parseTexture K (p\<lparr>m_lexer := l\<rparr>) of
                Inl e \<Rightarrow> Inl e | Inr p' \<Rightarrow> parse K p')
         | PT_NORMAL \<Rightarrow>
             (case parseNormal K (p\<lparr>m_lexer := l\<rparr>) of
                Inl e \<Rightarrow> Inl e | Inr p' \<Rightarrow> parse K p')
         | PT_PARAMETER \<Rightarrow>
             (case parseParameter K (p\<lparr>m_lexer := l\<rparr>) of
                Inl e \<Rightarrow> Inl e | Inr p' \<Rightarrow> parse K p')
         | PT_FACE \<Rightarrow>
             (case parseFace K (p\<lparr>m_lexer := l\<rparr>) of
                Inl e \<Rightarrow> Inl e | Inr p' \<Rightarrow> parse K p')
         | _ \<Rightarrow> parse K (p\<lparr>m_lexer := l\<rparr>)))"
  by pat_completeness auto
termination
proof (relation "measure (\<lambda>(K, p). tokens_left (m_lexer p))", goal_cases)
  case 1
  show ?case by simp
next
  case (2 K p l)
  then show ?case
    using nextToken_tokens_left(2) [of K "m_lexer p" l] nextToken_currToken [of K "m_lexer p" l]
      parseVertex_tokens_left by fastforce
qed (use nextToken_tokens_left(2) nextToken_currToken
      parseTexture_tokens_left parseNormal_tokens_left parseParameter_tokens_left
      parseFace_tokens_left in fastforce)+

declare parse.simps [simp del]

text \<open>
  The constructor leaves \<open>m_currChar\<close>, \<open>m_peekChar\<close>, the attributes of the two tokens
  and \<open>m_float4\<close> uninitialized: what they hold is a parameter of the model.
  \<^verbatim>\<open>Token()\<close> sets the kind \<open>PT_ERROR\<close> and \<^verbatim>\<open>ParseString()\<close> is the empty string.
\<close>

record uninitialized =
  u_currChar :: "char option"
  u_peekChar :: "char option"
  u_currAttribute :: TokenAttrib
  u_peekAttribute :: TokenAttrib
  u_float4 :: "nat \<Rightarrow> real"

definition Token_init :: "TokenAttrib \<Rightarrow> Token" where
  "Token_init a = \<lparr>m_token = PT_ERROR, m_lexicon = [], m_attribute = a\<rparr>"

definition lexer_init :: "uninitialized \<Rightarrow> char list \<Rightarrow> lexer" where
  "lexer_init u reader =
    \<lparr>m_reader = reader,
     m_currChar = u_currChar u, m_peekChar = u_peekChar u,
     m_currToken = Token_init (u_currAttribute u),
     m_peekToken = Token_init (u_peekAttribute u),
     m_currLineCount = 1, m_currCharCount = - 1\<rparr>"

definition parser_init :: "uninitialized \<Rightarrow> lexer \<Rightarrow> parser" where
  "parser_init u l =
    \<lparr>m_lexer = l,
     m_vertexCount = 0, m_textureCount = 0, m_normalCount = 0,
     m_parameterCount = 0, m_faceCount = 0,
     m_float4 = u_float4 u,
     m_vector_index_array = [],
     m_parser = []\<rparr>"

text \<open>
  The body of the constructor: \<^verbatim>\<open>nextChar(); nextToken();\<close> on the members as
  initialized.
\<close>

definition KAbstractObjParserPrivate :: "karma \<Rightarrow> uninitialized \<Rightarrow> char list \<Rightarrow> error + parser" where
  "KAbstractObjParserPrivate K u reader =
    and_then (nextToken K (nextChar (lexer_init u reader))) (\<lambda>l. Inr (parser_init u l))"

text \<open>
  \<^verbatim>\<open>KAbstractObjParser(reader)\<close> followed by \<^verbatim>\<open>KAbstractObjParser::parse()\<close>: the whole
  run on the characters of \<open>reader\<close>.
\<close>

definition KAbstractObjParser_parse :: "karma \<Rightarrow> uninitialized \<Rightarrow> char list \<Rightarrow> error + bool \<times> parser" where
  "KAbstractObjParser_parse K u reader =
    and_then (KAbstractObjParserPrivate K u reader) (parse K)"

subsection \<open>An instance of the character helpers\<close>

text \<open>
  Modelled from the spec: the helpers of \<^verbatim>\<open>kcommon.h\<close> are not part of the sources at
  hand. The spec speaks of decimal digits and of alphabetic characters; \<open>ascii\<close> takes
  the ASCII digits, the ASCII letters, the value of a digit and the ASCII lower case.
  \<open>ascii_signed\<close> is the same with the two sign characters numeric as well, so that a
  literal can start with its sign. The instances are used to run the program on
  concrete inputs only.
\<close>

definition ascii_ctoi :: "char option \<Rightarrow> int" where
  "ascii_ctoi c = (case c of None \<Rightarrow> - 49 | Some x \<Rightarrow> int (of_char x) - 48)"

definition ascii_toLower :: "char \<Rightarrow> char" where
  "ascii_toLower c =
    (case map_of (zip ''ABCDEFGHIJKLMNOPQRSTUVWXYZ'' ''abcdefghijklmnopqrstuvwxyz'') c of
       Some x \<Rightarrow> x
     | None \<Rightarrow> c)"

definition ascii :: karma where
  "ascii =
    \<lparr>isNumeric = (\<lambda>c. c \<in> set ''0123456789''),
     isAlpha = (\<lambda>c. c \<in> set ''abcdefghijklmnopqrstuvwxyzABCDEFGHIJKLMNOPQRSTUVWXYZ''),
     ctoi = ascii_ctoi,
     toLower = ascii_toLower\<rparr>"

definition ascii_signed :: karma where
  "ascii_signed = ascii\<lparr>isNumeric := (\<lambda>c. c \<in> set ''0123456789-+'')\<rparr>"

text \<open>Some contents of the uninitialized members, for the runs on concrete inputs.\<close>

definition garbage :: uninitialized where
  "garbage =
    \<lparr>u_currChar = None, u_peekChar = None,
     u_currAttribute = \<lparr>asInteger = 0, asFloat = 0\<rparr>,
     u_peekAttribute = \<lparr>asInteger = 0, asFloat = 0\<rparr>,
     u_float4 = (\<lambda>i. - 7)\<rparr>"

subsection \<open>Observations of a run\<close>

text \<open>What a run delivered to the sink, with the value that \<^verbatim>\<open>parse()\<close> returned.\<close>

definition delivered :: "error + bool \<times> parser \<Rightarrow> error + bool \<times> event list" where
  "delivered r = (case r of Inl e \<Rightarrow> Inl e | Inr (b, p) \<Rightarrow> Inr (b, m_parser p))"

text \<open>The five statistics counters: vertices, textures, normals, parameters, faces.\<close>

definition statistics :: "parser \<Rightarrow> 64 word \<times> 64 word \<times> 64 word \<times> 64 word \<times> 64 word" where
  "statistics p =
    (m_vertexCount p, m_textureCount p, m_normalCount p, m_parameterCount p, m_faceCount p)"

definition counted :: "error + bool \<times> parser \<Rightarrow> (64 word \<times> 64 word \<times> 64 word \<times> 64 word \<times> 64 word) option" where
  "counted r = (case r of Inl e \<Rightarrow> None | Inr (b, p) \<Rightarrow> Some (statistics p))"

text \<open>
  The tokens from the lookahead token of a lexer on, as successive calls of
  \<^verbatim>\<open>nextToken()\<close> lex them: the list ends with the \<open>PT_EOF\<close> token, or with the last
  token that was lexed before the fatal error of the lexer.
\<close>

function tokens :: "karma \<Rightarrow> lexer \<Rightarrow> Token list" where
  "tokens K l =
    m_peekToken l #
      (if m_token (m_peekToken l) = PT_EOF then []
       else (case nextToken K l of
               Inl e \<Rightarrow> []
             | Inr l' \<Rightarrow> tokens K l'))"
  by pat_completeness auto
termination
proof (relation "measure (\<lambda>(K, l). tokens_left l)", goal_cases)
  case 1
  show ?case by simp
next
  case (2 K l l')
  then show ?case
    using nextToken_tokens_left(2) [of K l l'] by simp
qed

declare tokens.simps [simp del]

text \<open>
  What the parser reads of a token: the integer of an integer literal, the float of a
  float literal, the kind of any other token.
\<close>

datatype item = Integer int | Float real | Other ParseToken

definition item_of :: "Token \<Rightarrow> item" where
  "item_of t =
    (case m_token t of
       PT_INTEGER \<Rightarrow> Integer (asInteger (m_attribute t))
     | PT_FLOAT \<Rightarrow> Float (asFloat (m_attribute t))
     | k \<Rightarrow> Other k)"

definition items :: "karma \<Rightarrow> lexer \<Rightarrow> item list" where
  "items K l = map item_of (tokens K l)"

text \<open>The items of a whole input: those after the constructor.\<close>

definition lexed :: "karma \<Rightarrow> uninitialized \<Rightarrow> char list \<Rightarrow> item list" where
  "lexed K u reader =
    (case KAbstractObjParserPrivate K u reader of
       Inl e \<Rightarrow> []
     | Inr p \<Rightarrow> items K (m_lexer p))"

section \<open>Vocabulary of the properties\<close>

text \<open>The fatal error of the lexer, \<^verbatim>\<open>Unexpected character at (line:column)\<close>.\<close>

fun lexical :: "error \<Rightarrow> bool" where
  "lexical (Unexpected_character line col c) = True"
| "lexical (Expected_token t t') = False"
| "lexical Encountered_an_error = False"

text \<open>The lookahead token is not of the kind \<open>PT_ERROR\<close>.\<close>

definition no_error_token :: "lexer \<Rightarrow> bool" where
  "no_error_token l \<longleftrightarrow> m_token (m_peekToken l) \<noteq> PT_ERROR"

text \<open>The keywords of the five geometry statements.\<close>

definition geometry :: "ParseToken \<Rightarrow> bool" where
  "geometry k \<longleftrightarrow> k \<in> {PT_VERTEX, PT_TEXTURE, PT_NORMAL, PT_PARAMETER, PT_FACE}"

fun item_kind :: "item \<Rightarrow> ParseToken" where
  "item_kind (Integer i) = PT_INTEGER"
| "item_kind (Float f) = PT_FLOAT"
| "item_kind (Other k) = k"

text \<open>The keyword of the statement that a callback reports.\<close>

fun keyword_of :: "event \<Rightarrow> ParseToken" where
  "keyword_of (OnVertex f) = PT_VERTEX"
| "keyword_of (OnTexture f) = PT_TEXTURE"
| "keyword_of (OnNormal f) = PT_NORMAL"
| "keyword_of (OnParameter f) = PT_PARAMETER"
| "keyword_of (OnFace v n) = PT_FACE"

text \<open>The geometry keywords among the items, in their order.\<close>

definition statements :: "item list \<Rightarrow> ParseToken list" where
  "statements its = filter geometry (map item_kind its)"

text \<open>
  The parser as the dispatch loop of \<^verbatim>\<open>parse()\<close> has it when its first call of
  \<^verbatim>\<open>nextToken()\<close> has returned: the keyword of the first statement is the current token.
\<close>

definition dispatched :: "karma \<Rightarrow> uninitialized \<Rightarrow> char list \<Rightarrow> parser option" where
  "dispatched K u reader =
    (case KAbstractObjParserPrivate K u reader of
       Inl e \<Rightarrow> None
     | Inr p \<Rightarrow>
        (case nextToken K (m_lexer p) of
           Inl e \<Rightarrow> None
         | Inr l \<Rightarrow> Some (p\<lparr>m_lexer := l\<rparr>)))"

text \<open>The value that \<^verbatim>\<open>parseFloat\<close> reads of a literal; no value for another token.\<close>

fun number_value :: "item \<Rightarrow> real option" where
  "number_value (Integer i) = Some (real_of_int i)"
| "number_value (Float f) = Some f"
| "number_value (Other k) = None"

text \<open>
  An index group of a face statement, after the grammar
  \<^verbatim>\<open>INTEGER ['/' [INTEGER] ['/' [INTEGER]]]\<close>: the vertex index alone; the vertex index, a
  separator and the texture index, if any; or the vertex index, a separator, the
  texture index, if any, a second separator and the normal index, if any.
\<close>

datatype 'a faceGroup = V 'a | VT 'a "'a option" | VTN 'a "'a option" "'a option"

fun optional :: "int option \<Rightarrow> item list" where
  "optional None = []"
| "optional (Some i) = [Integer i]"

fun group_items :: "int faceGroup \<Rightarrow> item list" where
  "group_items (V v) = [Integer v]"
| "group_items (VT v t) = Integer v # Other PT_SEPARATOR # optional t"
| "group_items (VTN v t n) =
     Integer v # Other PT_SEPARATOR # optional t @ Other PT_SEPARATOR # optional n"

text \<open>The index of a slot: the sentinel 0 for an omitted one.\<close>

fun slot :: "int option \<Rightarrow> index_type" where
  "slot None = 0"
| "slot (Some i) = word_of_int i"

fun group_indices :: "int faceGroup \<Rightarrow> index_array" where
  "group_indices (V v) = (word_of_int v, 0, 0)"
| "group_indices (VT v t) = (word_of_int v, slot t, 0)"
| "group_indices (VTN v t n) = (word_of_int v, slot t, slot n)"

text \<open>A group that ends with a separator.\<close>

fun open_ended :: "'a faceGroup \<Rightarrow> bool" where
  "open_ended (V v) = False"
| "open_ended (VT v t) = (t = None)"
| "open_ended (VTN v t n) = (n = None)"

fun is_Integer :: "item \<Rightarrow> bool" where
  "is_Integer (Integer i) = True"
| "is_Integer (Float f) = False"
| "is_Integer (Other k) = False"

text \<open>The characters that the lexer has not made current yet.\<close>

definition pending_chars :: "lexer \<Rightarrow> string" where
  "pending_chars l = (case m_peekChar l of None \<Rightarrow> [] | Some c \<Rightarrow> c # m_reader l)"

text \<open>The characters that \<^verbatim>\<open>lexToken\<close> skips: space, tab and carriage return.\<close>

definition whitespace :: "string \<Rightarrow> bool" where
  "whitespace w \<longleftrightarrow> set w \<subseteq> {CHR '' '', CHR 0x09, CHR 0x0D}"

text \<open>
  A decimal numeral of any length, and the integer that \<^verbatim>\<open>lexReadInteger()\<close> reads of
  it: the first digit, then \<^verbatim>\<open>integer *= 10; integer += ctoi(nextChar())\<close> for every
  further digit, then \<^verbatim>\<open>sign * integer\<close> with the sign 1, all in \<^verbatim>\<open>int\<close>.
\<close>

definition decimal :: "string \<Rightarrow> bool" where
  "decimal ds \<longleftrightarrow> ds \<noteq> [] \<and> set ds \<subseteq> set ''0123456789''"

definition decimal_value :: "karma \<Rightarrow> string \<Rightarrow> int" where
  "decimal_value K ds =
     (case ds of
        [] \<Rightarrow> 0
      | d # ds' \<Rightarrow>
          wrap_int (foldl (\<lambda>i d. wrap_int (wrap_int (i * 10) + ctoi K (Some d)))
                      (ctoi K (Some d)) ds'))"

text \<open>
  What the statement needs of the character helpers: the decimal digits are numeric;
  whitespace, the newline, the separator and the comment sign are not.
\<close>

definition reads_decimals :: "karma \<Rightarrow> bool" where
  "reads_decimals K \<longleftrightarrow>
     (\<forall>d\<in>set ''0123456789''. isNumeric K d) \<and>
     (\<forall>c\<in>{CHR '' '', CHR 0x09, CHR 0x0D, CHR 0x0A, CHR ''/'', CHR ''#''}. \<not> isNumeric K c)"

text \<open>
  The lexical items of the index groups as text: a decimal numeral and the separator,
  each after the whitespace \<open>w\<close> of a pair \<open>(w, x)\<close>.
\<close>

datatype lexeme = Digits string | Slash

fun lexeme_text :: "lexeme \<Rightarrow> string" where
  "lexeme_text (Digits ds) = ds"
| "lexeme_text Slash = ''/''"

fun lexeme_item :: "karma \<Rightarrow> lexeme \<Rightarrow> item" where
  "lexeme_item K (Digits ds) = Integer (decimal_value K ds)"
| "lexeme_item K Slash = Other PT_SEPARATOR"

definition spaced_text :: "(string \<times> lexeme) list \<Rightarrow> string" where
  "spaced_text xs = concat (map (\<lambda>(w, x). w @ lexeme_text x) xs)"

text \<open>
  A character that ends a numeral: whitespace, the newline, the separator or the
  comment sign.
\<close>

definition delimiter :: "char \<Rightarrow> bool" where
  "delimiter c \<longleftrightarrow> c \<in> {CHR '' '', CHR 0x09, CHR 0x0D, CHR 0x0A, CHR ''/'', CHR ''#''}"

text \<open>A text at which a numeral ends: the end of input, or a delimiter first.\<close>

definition delimited :: "string \<Rightarrow> bool" where
  "delimited str \<longleftrightarrow> (case str of [] \<Rightarrow> True | c # cs \<Rightarrow> delimiter c)"

text \<open>
  What ends a statement: the end of input, a newline, or a comment, which runs to the
  end of its line.
\<close>

definition ends_statement :: "string \<Rightarrow> bool" where
  "ends_statement str \<longleftrightarrow>
     (case str of [] \<Rightarrow> True | c # cs \<Rightarrow> c = CHR 0x0A \<or> c = CHR ''#'')"

text \<open>
  The items \<open>xs\<close> before the text \<open>after\<close>: every numeral is decimal and ends at the text
  that follows it, and only whitespace stands between the items.
\<close>

fun well_spaced :: "string \<Rightarrow> (string \<times> lexeme) list \<Rightarrow> bool" where
  "well_spaced after [] = True"
| "well_spaced after ((w, Digits ds) # xs) =
     (whitespace w \<and> decimal ds \<and> delimited (spaced_text xs @ after) \<and>
      well_spaced after xs)"
| "well_spaced after ((w, Slash) # xs) = (whitespace w \<and> well_spaced after xs)"

text \<open>The kinds after which \<^verbatim>\<open>lexToken\<close> skips the rest of the line.\<close>

definition skips_line :: "ParseToken \<Rightarrow> bool" where
  "skips_line k \<longleftrightarrow> k \<in> {PT_GROUP, PT_OBJECT, PT_SMOOTHING, PT_MATERIAL}"

text \<open>
  The text of an index group, its numerals as strings; the text of the index groups
  of a face statement, each group after its whitespace; and the text of the rest of a
  face statement after its keyword, when the line ends with whitespace and the newline.
\<close>

fun optional_text :: "string option \<Rightarrow> string" where
  "optional_text None = []"
| "optional_text (Some ds) = ds"

fun group_text :: "string faceGroup \<Rightarrow> string" where
  "group_text (V v) = v"
| "group_text (VT v t) = v @ ''/'' @ optional_text t"
| "group_text (VTN v t n) = v @ ''/'' @ optional_text t @ ''/'' @ optional_text n"

definition groups_text :: "(string \<times> string faceGroup) list \<Rightarrow> string" where
  "groups_text wgs = concat (map (\<lambda>(w, g). w @ group_text g) wgs)"

definition face_text :: "(string \<times> string faceGroup) list \<Rightarrow> string \<Rightarrow> string" where
  "face_text wgs w_end = concat (map (\<lambda>(w, g). w @ group_text g) wgs) @ w_end @ [CHR 0x0A]"

fun optional_lexemes :: "string option \<Rightarrow> (string \<times> lexeme) list" where
  "optional_lexemes None = []"
| "optional_lexemes (Some ds) = [([], Digits ds)]"

fun group_lexemes :: "string \<Rightarrow> string faceGroup \<Rightarrow> (string \<times> lexeme) list" where
  "group_lexemes w (V v) = [(w, Digits v)]"
| "group_lexemes w (VT v t) = (w, Digits v) # ([], Slash) # optional_lexemes t"
| "group_lexemes w (VTN v t n) =
     (w, Digits v) # ([], Slash) # optional_lexemes t @ ([], Slash) # optional_lexemes n"

definition groups_lexemes :: "(string \<times> string faceGroup) list \<Rightarrow> (string \<times> lexeme) list" where
  "groups_lexemes wgs = concat (map (\<lambda>(w, g). group_lexemes w g) wgs)"

text \<open>The groups of a text with the integers that the lexer reads of their numerals.\<close>

definition group_value :: "karma \<Rightarrow> string faceGroup \<Rightarrow> int faceGroup" where
  "group_value K g = map_faceGroup (decimal_value K) g"

text \<open>The parser after the constructor, if the constructor returns.\<close>

definition constructed :: "karma \<Rightarrow> uninitialized \<Rightarrow> char list \<Rightarrow> parser option" where
  "constructed K u reader =
    (case KAbstractObjParserPrivate K u reader of Inl e \<Rightarrow> None | Inr p \<Rightarrow> Some p)"

section \<open>Properties\<close>

subsection \<open>Directive lines\<close>

text \<open>
  Claim C1: a directive line (\<^verbatim>\<open>g\<close>, \<^verbatim>\<open>o\<close>, \<^verbatim>\<open>s\<close>, \<^verbatim>\<open>mtllib\<close>, \<^verbatim>\<open>usemtl\<close>) produces no
  geometry event and the rest of its line is discarded, for all five kinds. The
  \<^verbatim>\<open>switch\<close> of \<^verbatim>\<open>lexToken\<close> skips the line after \<open>PT_GROUP\<close>, \<open>PT_OBJECT\<close>,
  \<open>PT_SMOOTHING\<close> and \<open>PT_MATERIAL\<close>, and has no case for \<open>PT_USEMATERIAL\<close>. The rest of a
  \<^verbatim>\<open>usemtl\<close> line is lexed: on \<^verbatim>\<open>usemtl v 1 2 3\<close> the parser delivers a vertex, where the
  same line with \<^verbatim>\<open>mtllib\<close> delivers nothing; and a material name with an underscore
  is a fatal error after \<^verbatim>\<open>usemtl\<close>, where it is skipped after \<^verbatim>\<open>mtllib\<close>.
\<close>

theorem C1_usemtl_line_is_not_skipped:
  "lexed ascii garbage (''usemtl v 1 2 3'' @ [CHR 0x0A]) =
     [Other PT_USEMATERIAL, Other PT_VERTEX, Integer 1, Integer 2, Integer 3,
      Other PT_ENDSTATEMENT, Other PT_EOF]
   \<and> delivered (KAbstractObjParser_parse ascii garbage (''usemtl v 1 2 3'' @ [CHR 0x0A])) =
     Inr (True, [OnVertex [1, 2, 3, 1]])
   \<and> delivered (KAbstractObjParser_parse ascii garbage (''mtllib v 1 2 3'' @ [CHR 0x0A])) =
     Inr (True, [])
   \<and> delivered (KAbstractObjParser_parse ascii garbage
        (''usemtl wood_floor'' @ [CHR 0x0A] @ ''v 1 2 3'' @ [CHR 0x0A])) =
     Inl (Unexpected_character 1 12 (CHR ''_''))
   \<and> delivered (KAbstractObjParser_parse ascii garbage
        (''mtllib wood_floor'' @ [CHR 0x0A] @ ''v 1 2 3'' @ [CHR 0x0A])) =
     Inr (True, [OnVertex [1, 2, 3, 1]])"
  by code_simp

subsection \<open>Numeric literals\<close>

text \<open>
  Claim C3: the sign of a fractional literal is applied once to the combined magnitude;
  a negative literal with integer part 0, such as \<^verbatim>\<open>-0.5\<close>, lexes to a negative value.
  \<^verbatim>\<open>lexTokenFloat\<close> takes the sign from its argument \<open>integer\<close>, which is \<open>sign * 0 = 0\<close>
  for such a literal: the fraction is added. Entered on \<^verbatim>\<open>-0.5\<close>, \<^verbatim>\<open>lexTokenInteger\<close>
  yields a float token of value 5 (the divisor counts the fractional digits after the
  first: it is 1 here). With the signs numeric, \<^verbatim>\<open>-0.5\<close> and \<^verbatim>\<open>0.5\<close> lex to the same
  value, and \<^verbatim>\<open>-0.25\<close> to a positive one, while \<^verbatim>\<open>-1.5\<close> keeps its sign; with the digits
  alone numeric, the sign character is the fatal error of the lexer.
\<close>

theorem C3_negative_literal_with_integer_part_zero:
  "map_prod id (\<lambda>l. asFloat (m_attribute (m_peekToken l)))
     (lexTokenInteger ascii (nextChar (nextChar (lexer_init garbage ''-0.5'')))) = (PT_FLOAT, 5)
   \<and> lexed ascii_signed garbage ''-0.5 0.5 -1.5 -0.25'' =
       [Float 5, Float 5, Float (- 6), Float (5 / 2), Other PT_EOF]
   \<and> lexed ascii garbage ''-0.5'' = []
   \<and> delivered (KAbstractObjParser_parse ascii garbage ''-0.5'') =
       Inl (Unexpected_character 1 1 (CHR ''-''))"
  by code_simp

text \<open>
  Claim C4: an exponent suffix is read in integer mode as well as in fractional mode, so
  that \<^verbatim>\<open>1e5\<close> is one float literal of value 100000. \<^verbatim>\<open>lexTokenInteger\<close> looks for a
  decimal point only; the exponent is looked for in \<^verbatim>\<open>lexTokenFloat\<close>. \<^verbatim>\<open>1e5\<close> is lexed
  as the integer 1, the identifier \<^verbatim>\<open>e\<close> and the integer 5, where \<^verbatim>\<open>1.0e5\<close> is one float
  literal; the vertex \<^verbatim>\<open>v 1e5 2 3\<close> is delivered with one field read and the values of the
  vertex before it in the other two.
\<close>

theorem C4_exponent_after_integer_is_not_read:
  "lexed ascii garbage ''1e5'' = [Integer 1, Other PT_STRING, Integer 5, Other PT_EOF]
   \<and> lexed ascii garbage ''1.0e5'' = [Float 100000, Other PT_EOF]
   \<and> delivered (KAbstractObjParser_parse ascii garbage
        (''v 7 8 9'' @ [CHR 0x0A] @ ''v 1e5 2 3'' @ [CHR 0x0A])) =
       Inr (True, [OnVertex [7, 8, 9, 1], OnVertex [1, 8, 9, 1]])"
  by code_simp

subsection \<open>Statement rules\<close>

text \<open>
  Claim C5: in a parameter statement whose second field is absent, the third component
  delivered to \<^verbatim>\<open>onParameter\<close> is 0.0 as well, whatever earlier statements wrote.
  \<^verbatim>\<open>parseParameter\<close> sets \<^verbatim>\<open>m_float4[1]\<close> when the second field is absent and does not
  touch \<^verbatim>\<open>m_float4[2]\<close>: after the vertex \<^verbatim>\<open>v 7 8 9\<close>, the statement \<^verbatim>\<open>vp 1\<close> is delivered
  with the third component 9.
\<close>

theorem C5_parameter_third_component_is_stale:
  "delivered (KAbstractObjParser_parse ascii garbage
     (''v 7 8 9'' @ [CHR 0x0A] @ ''vp 1'' @ [CHR 0x0A])) =
   Inr (True, [OnVertex [7, 8, 9, 1], OnParameter [1, 0, 9, 1]])"
  by code_simp

text \<open>
  Claim C6: each of the five statistics counters equals the number of statements of its
  kind parsed so far; after N face statements the face counter is N. \<^verbatim>\<open>parseVertex\<close>,
  \<^verbatim>\<open>parseTexture\<close>, \<^verbatim>\<open>parseNormal\<close> and \<^verbatim>\<open>parseParameter\<close> increment their counter;
  \<^verbatim>\<open>parseFace\<close> does not, and nothing else writes \<open>m_faceCount\<close>: after one vertex and two
  faces the counters are 1, 0, 0, 0 and 0.
\<close>

theorem C6_face_counter_stays_zero:
  "delivered (KAbstractObjParser_parse ascii garbage
     (''v 1 2 3'' @ [CHR 0x0A] @ ''f 1 1 1'' @ [CHR 0x0A] @ ''f 1 1 1'' @ [CHR 0x0A])) =
   Inr (True, [OnVertex [1, 2, 3, 1],
               OnFace [(1, 0, 0), (1, 0, 0), (1, 0, 0), (0, 0, 0)] 3,
               OnFace [(1, 0, 0), (1, 0, 0), (1, 0, 0), (0, 0, 0)] 3])
   \<and> counted (KAbstractObjParser_parse ascii garbage
     (''v 1 2 3'' @ [CHR 0x0A] @ ''f 1 1 1'' @ [CHR 0x0A] @ ''f 1 1 1'' @ [CHR 0x0A])) =
   Some (1, 0, 0, 0, 0)"
  by code_simp

subsection \<open>Face statements\<close>

text \<open>
  Claim C8, as stated: a face statement with zero index groups is a structural error
  and produces no empty \<^verbatim>\<open>onFace\<close> event. On the input \<^verbatim>\<open>f\<close> followed by a newline the
  run returns true and has delivered one \<^verbatim>\<open>onFace\<close> with the count 0.
\<close>

theorem C8_empty_face_is_accepted:
  "delivered (KAbstractObjParser_parse ascii garbage (''f'' @ [CHR 0x0A])) =
     Inr (True, [OnFace [(0, 0, 0)] 0])"
  by code_simp

text \<open>
  Claim C8, amended: a face statement whose keyword is not followed by an integer
  decodes zero index groups and is not an error: \<^verbatim>\<open>parseFace\<close> returns, the lexer is
  where it was, the vector holds the one zero array that was pushed, and \<^verbatim>\<open>onFace\<close> is
  called with the count 0.
\<close>

theorem C8_parseFace_without_index:
  assumes "m_token (m_peekToken (m_lexer p)) \<noteq> PT_INTEGER"
  shows "parseFace K p =
           Inr (emit (OnFace [(0, 0, 0)] 0) (p\<lparr>m_vector_index_array := [(0, 0, 0)]\<rparr>))"
proof -
  have "parseFaceIndices K (0, 0, 0) (m_lexer p) = Inr (False, (0, 0, 0), m_lexer p)"
    using assms by (simp add: parseFaceIndices_def parseInteger_def peekToken_def and_then_def)
  then have "parseFace_loop K [] (m_lexer p) = Inr ([(0, 0, 0)], m_lexer p)"
    by (subst parseFace_loop.simps) simp
  then show ?thesis
    by (simp add: parseFace_def and_then_def)
qed

text \<open>
  Claim C8, the amended statement at the parser that has dispatched the keyword of the
  input \<^verbatim>\<open>f\<close> with its newline: the lookahead token is the end of the statement.
\<close>

theorem C8_parseFace_without_index_witness:
  "m_token (m_peekToken (m_lexer (the (dispatched ascii garbage (''f'' @ [CHR 0x0A]))))) \<noteq>
     PT_INTEGER
   \<and> parseFace ascii (the (dispatched ascii garbage (''f'' @ [CHR 0x0A]))) =
       Inr (emit (OnFace [(0, 0, 0)] 0)
             ((the (dispatched ascii garbage (''f'' @ [CHR 0x0A])))
                \<lparr>m_vector_index_array := [(0, 0, 0)]\<rparr>))"
proof -
  have "m_token (m_peekToken (m_lexer (the (dispatched ascii garbage (''f'' @ [CHR 0x0A]))))) =
      PT_ENDSTATEMENT"
    by code_simp
  then have h: "m_token (m_peekToken (m_lexer (the (dispatched ascii garbage
      (''f'' @ [CHR 0x0A]))))) \<noteq> PT_INTEGER"
    by simp
  from h C8_parseFace_without_index [OF h, of ascii] show ?thesis
    by simp
qed

subsection \<open>Fatal errors\<close>

lemma lexToken_loop_Inl: "lexToken_loop K l = Inl e \<Longrightarrow> lexical e"
proof (induction K l rule: lexToken_loop.induct)
  case (1 K l)
  from "1.prems" show ?case
    by (subst (asm) lexToken_loop.simps) (auto split: option.splits if_splits dest: "1.IH")
qed

lemma fst_lexTokenFloatExponent: "fst (lexTokenFloatExponent K v l) = PT_FLOAT"
  by (simp add: lexTokenFloatExponent_def split_beta)

lemma fst_lexTokenFloat: "fst (lexTokenFloat K i l) = PT_FLOAT"
  by (simp add: lexTokenFloat_def split_beta Let_def fst_lexTokenFloatExponent)

lemma fst_lexTokenInteger: "fst (lexTokenInteger K l) \<in> {PT_INTEGER, PT_FLOAT}"
  by (simp add: lexTokenInteger_def split_beta fst_lexTokenFloat)

lemma symResolve_not_error: "symResolve l PT_STRING \<noteq> PT_ERROR"
  by (auto simp: symResolve_def sg_reserved_def split: option.splits if_splits)

lemma fst_lexTokenIdentifier_loop: "fst (lexTokenIdentifier_loop K l) \<noteq> PT_ERROR"
proof (induction K l rule: lexTokenIdentifier_loop.induct)
  case (1 K l)
  show ?case
    using "1.IH"
    by (subst lexTokenIdentifier_loop.simps) (simp add: symResolve_not_error split: option.splits)
qed

lemma fst_lexTokenIdentifier: "fst (lexTokenIdentifier K c l) \<noteq> PT_ERROR"
  by (simp add: lexTokenIdentifier_def fst_lexTokenIdentifier_loop)

lemma lexTokenInteger_kind:
  "lexTokenInteger K l = (t, l') \<Longrightarrow> t = PT_INTEGER \<or> t = PT_FLOAT"
  using fst_lexTokenInteger [of K l] by auto

lemma lexTokenIdentifier_kind: "lexTokenIdentifier K c l = (t, l') \<Longrightarrow> t \<noteq> PT_ERROR"
  using fst_lexTokenIdentifier [of K c l] by auto

lemma lexToken_loop_not_error: "lexToken_loop K l = Inr (t, l') \<Longrightarrow> t \<noteq> PT_ERROR"
proof (induction K l rule: lexToken_loop.induct)
  case (1 K l)
  from "1.prems" show ?case
    by (subst (asm) lexToken_loop.simps)
       (auto split: option.splits if_splits
             dest: "1.IH" lexTokenInteger_kind lexTokenIdentifier_kind)
qed

lemma nextToken_Inl: "nextToken K l = Inl e \<Longrightarrow> lexical e"
  by (auto simp: nextToken_def lexToken_def split: sum.splits dest: lexToken_loop_Inl)

lemma nextToken_no_error_token: "nextToken K l = Inr l' \<Longrightarrow> no_error_token l'"
  by (auto simp: nextToken_def lexToken_def no_error_token_def
           split: sum.splits prod.splits dest: lexToken_loop_not_error)


lemma parseFloat_lexical:
  assumes "parseFloat K f l = r"
  shows "r = Inl e \<Longrightarrow> lexical e"
    and "r = Inr (b, f', l') \<Longrightarrow> no_error_token l \<Longrightarrow> no_error_token l'"
  using assms
  by (auto simp: parseFloat_def and_then_def
           split: ParseToken.splits sum.splits
           dest: nextToken_Inl nextToken_no_error_token)

lemma parseFloat_at_lexical:
  assumes "parseFloat_at K i p = r"
  shows "r = Inl e \<Longrightarrow> lexical e"
    and "r = Inr (b, p') \<Longrightarrow> no_error_token (m_lexer p) \<Longrightarrow> no_error_token (m_lexer p')"
  using assms parseFloat_lexical [of K "m_float4 p i" "m_lexer p"]
  by (auto simp: parseFloat_at_def and_then_def split: sum.splits)

lemma parseInteger_lexical:
  assumes "parseInteger K i l = r"
  shows "r = Inl e \<Longrightarrow> lexical e"
    and "r = Inr (b, i', l') \<Longrightarrow> no_error_token l \<Longrightarrow> no_error_token l'"
  using assms
  by (auto simp: parseInteger_def and_then_def
           split: if_splits sum.splits
           dest: nextToken_Inl nextToken_no_error_token)

lemma checkToken_lexical:
  assumes "checkToken K t l = r"
  shows "r = Inl e \<Longrightarrow> lexical e"
    and "r = Inr (b, l') \<Longrightarrow> no_error_token l \<Longrightarrow> no_error_token l'"
  using assms
  by (auto simp: checkToken_def
           split: if_splits sum.splits
           dest: nextToken_Inl nextToken_no_error_token)


lemma parseFloat_at_Inl: "parseFloat_at K i p = Inl e \<Longrightarrow> lexical e"
  by (rule parseFloat_at_lexical(1) [OF refl])

lemma parseFloat_at_Inr:
  "parseFloat_at K i p = Inr (b, p') \<Longrightarrow> no_error_token (m_lexer p) \<Longrightarrow>
     no_error_token (m_lexer p')"
  by (rule parseFloat_at_lexical(2) [OF refl])

lemma m_lexer_emit [simp]: "m_lexer (emit ev p) = m_lexer p"
  by (simp add: emit_def)

lemma parseVertex_Inl: "parseVertex K p = Inl e \<Longrightarrow> lexical e"
  by (auto simp: parseVertex_def and_then_Inl Let_def dest: parseFloat_at_Inl)

lemma parseVertex_Inr:
  "parseVertex K p = Inr p' \<Longrightarrow> no_error_token (m_lexer p) \<Longrightarrow> no_error_token (m_lexer p')"
  by (auto simp: parseVertex_def and_then_Inr Let_def split: if_splits
           dest!: parseFloat_at_Inr)

lemma parseTexture_Inl: "parseTexture K p = Inl e \<Longrightarrow> lexical e"
  by (auto simp: parseTexture_def and_then_Inl Let_def dest: parseFloat_at_Inl)

lemma parseTexture_Inr:
  "parseTexture K p = Inr p' \<Longrightarrow> no_error_token (m_lexer p) \<Longrightarrow> no_error_token (m_lexer p')"
  by (auto simp: parseTexture_def and_then_Inr Let_def split: if_splits
           dest!: parseFloat_at_Inr)

lemma parseNormal_Inl: "parseNormal K p = Inl e \<Longrightarrow> lexical e"
  by (auto simp: parseNormal_def and_then_Inl Let_def dest: parseFloat_at_Inl)

lemma parseNormal_Inr:
  "parseNormal K p = Inr p' \<Longrightarrow> no_error_token (m_lexer p) \<Longrightarrow> no_error_token (m_lexer p')"
  by (auto simp: parseNormal_def and_then_Inr Let_def split: if_splits
           dest!: parseFloat_at_Inr)

lemma parseParameter_Inl: "parseParameter K p = Inl e \<Longrightarrow> lexical e"
  by (auto simp: parseParameter_def and_then_Inl Let_def split: if_splits dest: parseFloat_at_Inl)

lemma parseParameter_Inr:
  "parseParameter K p = Inr p' \<Longrightarrow> no_error_token (m_lexer p) \<Longrightarrow> no_error_token (m_lexer p')"
  by (auto simp: parseParameter_def and_then_Inr Let_def split: if_splits
           dest!: parseFloat_at_Inr)

lemma parseFaceIndices_sub_lexical:
  assumes "parseFaceIndices_sub K i l = r"
  shows "r = Inl e \<Longrightarrow> lexical e"
    and "r = Inr (i', l') \<Longrightarrow> no_error_token l \<Longrightarrow> no_error_token l'"
  using assms
  by (auto simp: parseFaceIndices_sub_def and_then_Inl and_then_Inr split: if_splits
           dest: checkToken_lexical [OF refl] parseInteger_lexical [OF refl])

lemma parseFaceIndices_lexical:
  assumes "parseFaceIndices K ix l = r"
  shows "r = Inl e \<Longrightarrow> lexical e"
    and "r = Inr (b, ix', l') \<Longrightarrow> no_error_token l \<Longrightarrow> no_error_token l'"
  using assms
  by (auto simp: parseFaceIndices_def and_then_Inl and_then_Inr split: if_splits prod.splits
           dest: parseFaceIndices_sub_lexical [OF refl] parseInteger_lexical [OF refl])

lemma parseFace_loop_lexical:
  "(parseFace_loop K v l = Inl e \<longrightarrow> lexical e) \<and>
   (parseFace_loop K v l = Inr (v', l') \<longrightarrow> no_error_token l \<longrightarrow> no_error_token l')"
proof (induction K v l rule: parseFace_loop.induct)
  case (1 K v l)
  show ?case
  proof (cases "parseFaceIndices K (0, 0, 0) l")
    case (Inl e')
    then show ?thesis
      using parseFaceIndices_lexical(1) [OF refl Inl]
      by (subst (1 2) parseFace_loop.simps) auto
  next
    case (Inr x)
    obtain b ix l1 where x: "x = (b, ix, l1)"
      by (cases x) auto
    show ?thesis
      using "1.IH" [of x b "(ix, l1)" ix l1] Inr x
        parseFaceIndices_lexical(2) [OF refl, of K "(0, 0, 0)" l b ix l1]
      by (subst (1 2) parseFace_loop.simps) auto
  qed
qed

lemma parseFace_Inl: "parseFace K p = Inl e \<Longrightarrow> lexical e"
  using parseFace_loop_lexical [of K "[]" "m_lexer p" e]
  by (auto simp: parseFace_def and_then_Inl Let_def)

lemma parseFace_Inr:
  "parseFace K p = Inr p' \<Longrightarrow> no_error_token (m_lexer p) \<Longrightarrow> no_error_token (m_lexer p')"
  using parseFace_loop_lexical [of K "[]" "m_lexer p"]
  by (auto simp: parseFace_def and_then_Inr Let_def)

lemma parse_Inl: "no_error_token (m_lexer p) \<Longrightarrow> parse K p = Inl e \<Longrightarrow> lexical e"
proof (induction K p rule: parse.induct)
  case (1 K p)
  show ?case
  proof (cases "nextToken K (m_lexer p)")
    case (Inl e')
    with "1.prems" nextToken_Inl [OF Inl] show ?thesis
      by (subst (asm) parse.simps) simp
  next
    case (Inr l)
    have cur: "m_token (m_currToken l) \<noteq> PT_ERROR"
      using nextToken_currToken [OF Inr] "1.prems"(1) by (simp add: no_error_token_def)
    have inv: "no_error_token (m_lexer (p\<lparr>m_lexer := l\<rparr>))"
      using nextToken_no_error_token [OF Inr] by simp
    from "1.prems"(2) Inr cur show ?thesis
      apply (subst (asm) parse.simps)
      apply (cases "m_token (m_currToken l)")
      apply (auto split: sum.splits
          dest: parseVertex_Inl parseTexture_Inl parseNormal_Inl parseParameter_Inl parseFace_Inl
          intro: "1.IH" [OF Inr] inv
            parseVertex_Inr [OF _ inv] parseTexture_Inr [OF _ inv] parseNormal_Inr [OF _ inv]
            parseParameter_Inr [OF _ inv] parseFace_Inr [OF _ inv])
      done
  qed
qed


text \<open>
  Claim C9: during a run the token-mismatch error is unreachable. No statement rule
  calls \<^verbatim>\<open>expectToken\<close>, and the \<open>PT_ERROR\<close> branch of the dispatch loop is never taken,
  since no token that the lexer returns has that kind: whenever a run ends in a fatal
  error, the error is the unexpected-character error of the lexer.
\<close>

theorem C9_only_lexical_errors:
  assumes "KAbstractObjParser_parse K u reader = Inl e"
  shows "\<exists>line col c. e = Unexpected_character line col c"
proof -
  have "lexical e"
  proof (cases "KAbstractObjParserPrivate K u reader")
    case (Inl e')
    then have "e' = e"
      using assms by (simp add: KAbstractObjParser_parse_def and_then_def)
    with Inl show ?thesis
      by (auto simp: KAbstractObjParserPrivate_def and_then_Inl dest: nextToken_Inl)
  next
    case (Inr p)
    then have "parse K p = Inl e"
      using assms by (simp add: KAbstractObjParser_parse_def and_then_def)
    moreover have "no_error_token (m_lexer p)"
      using Inr
      by (auto simp: KAbstractObjParserPrivate_def and_then_Inr parser_init_def
               dest: nextToken_no_error_token)
    ultimately show ?thesis
      by (rule parse_Inl [rotated])
  qed
  then show ?thesis
    by (cases e) simp_all
qed

text \<open>Claim C9 on the input \<^verbatim>\<open>v 1 2 3 @\<close>, which ends in the fatal error of the lexer.\<close>

theorem C9_only_lexical_errors_witness:
  "KAbstractObjParser_parse ascii garbage ''v 1 2 3 @'' =
     Inl (Unexpected_character 1 9 (CHR ''@''))
   \<and> (\<exists>line col c. Unexpected_character 1 9 (CHR ''@'') = Unexpected_character line col c)"
proof -
  have "delivered (KAbstractObjParser_parse ascii garbage ''v 1 2 3 @'') =
     Inl (Unexpected_character 1 9 (CHR ''@''))"
    by code_simp
  then have r: "KAbstractObjParser_parse ascii garbage ''v 1 2 3 @'' =
     Inl (Unexpected_character 1 9 (CHR ''@''))"
    by (simp add: delivered_def split: sum.splits prod.splits)
  from r C9_only_lexical_errors [OF r] show ?thesis
    by simp
qed

subsection \<open>One callback per statement\<close>

lemma item_kind_item_of [simp]: "item_kind (item_of t) = m_token t"
  by (cases "m_token t") (simp_all add: item_of_def)

lemma items_step:
  "nextToken K l = Inr l' \<Longrightarrow>
     items K l = (if m_token (m_peekToken l) = PT_EOF then [item_of (m_peekToken l)]
                  else item_of (m_peekToken l) # items K l')"
  by (simp add: items_def tokens.simps [of K l])

lemma items_Inl: "nextToken K l = Inl e \<Longrightarrow> items K l = [item_of (m_peekToken l)]"
  by (simp add: items_def tokens.simps [of K l])

lemma statements_step:
  assumes "nextToken K l = Inr l'" "m_token (m_peekToken l) \<noteq> PT_EOF"
  shows "statements (items K l) =
           (if geometry (m_token (m_peekToken l))
            then m_token (m_peekToken l) # statements (items K l')
            else statements (items K l'))"
  using assms by (simp add: items_step statements_def)

lemma parseFloat_statements:
  "parseFloat K f l = Inr (b, f', l') \<Longrightarrow> statements (items K l') = statements (items K l)"
  by (auto simp: parseFloat_def and_then_Inr peekToken_def statements_step geometry_def
           split: ParseToken.splits)

lemma parseInteger_statements:
  "parseInteger K i l = Inr (b, i', l') \<Longrightarrow> statements (items K l') = statements (items K l)"
  by (auto simp: parseInteger_def and_then_Inr peekToken_def statements_step geometry_def
           split: if_splits)

lemma checkToken_SEPARATOR_statements:
  "checkToken K PT_SEPARATOR l = Inr (b, l') \<Longrightarrow>
     statements (items K l') = statements (items K l)"
  by (auto simp: checkToken_def peekToken_def statements_step geometry_def
           split: if_splits sum.splits)

lemma parseFloat_at_statements:
  "parseFloat_at K i p = Inr (b, p') \<Longrightarrow>
     statements (items K (m_lexer p')) = statements (items K (m_lexer p)) \<and>
     m_parser p' = m_parser p"
  by (auto simp: parseFloat_at_def and_then_Inr dest: parseFloat_statements)

lemma m_parser_emit [simp]: "m_parser (emit ev p) = m_parser p @ [ev]"
  by (simp add: emit_def)

lemma parseVertex_statements:
  "parseVertex K p = Inr p' \<Longrightarrow>
     statements (items K (m_lexer p')) = statements (items K (m_lexer p)) \<and>
     (\<exists>f. m_parser p' = m_parser p @ [OnVertex f])"
  by (auto simp: parseVertex_def and_then_Inr Let_def split: if_splits
           dest!: parseFloat_at_statements)

lemma parseTexture_statements:
  "parseTexture K p = Inr p' \<Longrightarrow>
     statements (items K (m_lexer p')) = statements (items K (m_lexer p)) \<and>
     (\<exists>f. m_parser p' = m_parser p @ [OnTexture f])"
  by (auto simp: parseTexture_def and_then_Inr Let_def split: if_splits
           dest!: parseFloat_at_statements)

lemma parseNormal_statements:
  "parseNormal K p = Inr p' \<Longrightarrow>
     statements (items K (m_lexer p')) = statements (items K (m_lexer p)) \<and>
     (\<exists>f. m_parser p' = m_parser p @ [OnNormal f])"
  by (auto simp: parseNormal_def and_then_Inr Let_def split: if_splits
           dest!: parseFloat_at_statements)

lemma parseParameter_statements:
  "parseParameter K p = Inr p' \<Longrightarrow>
     statements (items K (m_lexer p')) = statements (items K (m_lexer p)) \<and>
     (\<exists>f. m_parser p' = m_parser p @ [OnParameter f])"
  by (auto simp: parseParameter_def and_then_Inr Let_def split: if_splits
           dest!: parseFloat_at_statements)

lemma parseFaceIndices_sub_statements:
  "parseFaceIndices_sub K i l = Inr (i', l') \<Longrightarrow>
     statements (items K l') = statements (items K l)"
  by (auto simp: parseFaceIndices_sub_def and_then_Inr split: if_splits
           dest!: checkToken_SEPARATOR_statements parseInteger_statements)

lemma parseFaceIndices_statements:
  "parseFaceIndices K ix l = Inr (b, ix', l') \<Longrightarrow>
     statements (items K l') = statements (items K l)"
  by (auto simp: parseFaceIndices_def and_then_Inr split: if_splits prod.splits
           dest!: parseFaceIndices_sub_statements parseInteger_statements)

lemma parseFace_loop_statements:
  "parseFace_loop K v l = Inr (v', l') \<Longrightarrow> statements (items K l') = statements (items K l)"
proof (induction K v l rule: parseFace_loop.induct)
  case (1 K v l)
  from "1.prems" obtain b ix l1 where r: "parseFaceIndices K (0, 0, 0) l = Inr (b, ix, l1)"
    by (subst (asm) parseFace_loop.simps) (auto split: sum.splits)
  show ?case
  proof (cases b)
    case True
    with "1.prems" r have "parseFace_loop K (v @ [ix]) l1 = Inr (v', l')"
      by (subst (asm) parseFace_loop.simps) simp
    with "1.IH" r True have "statements (items K l') = statements (items K l1)"
      by simp
    with parseFaceIndices_statements [OF r] show ?thesis
      by simp
  next
    case False
    with "1.prems" r have "l' = l1"
      by (subst (asm) parseFace_loop.simps) simp
    with parseFaceIndices_statements [OF r] show ?thesis
      by simp
  qed
qed

lemma parseFace_statements:
  "parseFace K p = Inr p' \<Longrightarrow>
     statements (items K (m_lexer p')) = statements (items K (m_lexer p)) \<and>
     (\<exists>v n. m_parser p' = m_parser p @ [OnFace v n])"
  by (auto simp: parseFace_def and_then_Inr Let_def dest!: parseFace_loop_statements)


lemma parse_statements:
  "parse K p = Inr (b, p') \<Longrightarrow>
     b \<and> (\<exists>evs. m_parser p' = m_parser p @ evs \<and>
                map keyword_of evs = statements (items K (m_lexer p)))"
proof (induction K p arbitrary: b p' rule: parse.induct)
  case (1 K p)
  obtain l where l: "nextToken K (m_lexer p) = Inr l"
    using "1.prems" by (subst (asm) parse.simps) (auto split: sum.splits)
  define k where "k = m_token (m_currToken l)"
  have peek: "m_token (m_peekToken (m_lexer p)) = k"
    using nextToken_currToken [OF l] by (simp add: k_def)
  have step: "k \<noteq> PT_EOF \<Longrightarrow> statements (items K (m_lexer p)) =
      (if geometry k then k # statements (items K l) else statements (items K l))"
    using statements_step [OF l] peek by simp
  note k = k_def [symmetric]
  have goal: ?case
    if r: "parse K p1 = Inr (b, p')"
      and ih: "\<And>b p'. parse K p1 = Inr (b, p') \<Longrightarrow>
        b \<and> (\<exists>evs. m_parser p' = m_parser p1 @ evs \<and>
                map keyword_of evs = statements (items K (m_lexer p1)))"
      and st: "statements (items K (m_lexer p1)) = statements (items K l)"
      and ev: "m_parser p1 = m_parser p @ evs1"
      and kw: "map keyword_of evs1 @ statements (items K l) = statements (items K (m_lexer p))"
    for p1 evs1
  proof -
    from ih [OF r] obtain evs where b: b and evs: "m_parser p' = m_parser p1 @ evs"
      and m: "map keyword_of evs = statements (items K (m_lexer p1))"
      by blast
    have "m_parser p' = m_parser p @ (evs1 @ evs)"
      using evs ev by simp
    moreover have "map keyword_of (evs1 @ evs) = statements (items K (m_lexer p))"
      using m st kw by simp
    ultimately show ?thesis
      using b by blast
  qed
  have other: ?case
    if "k \<notin> {PT_ERROR, PT_EOF, PT_VERTEX, PT_TEXTURE, PT_NORMAL, PT_PARAMETER, PT_FACE}"
  proof -
    have r: "parse K (p\<lparr>m_lexer := l\<rparr>) = Inr (b, p')"
      using "1.prems" l k that by (subst (asm) parse.simps) (cases k; simp)
    have ih: "parse K (p\<lparr>m_lexer := l\<rparr>) = Inr (b, p') \<Longrightarrow>
        b \<and> (\<exists>evs. m_parser p' = m_parser (p\<lparr>m_lexer := l\<rparr>) @ evs \<and>
                map keyword_of evs = statements (items K (m_lexer (p\<lparr>m_lexer := l\<rparr>))))"
      for b p'
      using "1.IH"(6-) [OF l] k that by (cases k) simp_all
    have "statements (items K (m_lexer p)) = statements (items K l)"
      using step that by (simp add: geometry_def)
    then show ?thesis
      by (intro goal [OF r ih, of "[]"]) simp_all
  qed
  show ?case
  proof (cases k)
    case PT_ERROR
    with "1.prems" l k show ?thesis
      by (subst (asm) parse.simps) simp
  next
    case PT_EOF
    have "items K (m_lexer p) = [item_of (m_peekToken (m_lexer p))]"
      using items_step [OF l] peek PT_EOF by simp
    then have "statements (items K (m_lexer p)) = []"
      using peek PT_EOF by (simp add: statements_def geometry_def)
    moreover have "b \<and> p' = p\<lparr>m_lexer := l\<rparr>"
      using "1.prems" l k PT_EOF by (subst (asm) parse.simps) auto
    ultimately show ?thesis
      by simp
  next
    case PT_VERTEX
    then obtain p1 where p1: "parseVertex K (p\<lparr>m_lexer := l\<rparr>) = Inr p1"
      and r: "parse K p1 = Inr (b, p')"
      using "1.prems" l k by (subst (asm) parse.simps) (auto split: sum.splits)
    from parseVertex_statements [OF p1] obtain f where
      "statements (items K (m_lexer p1)) = statements (items K l)"
      "m_parser p1 = m_parser p @ [OnVertex f]"
      by auto
    moreover have "map keyword_of [OnVertex f] @ statements (items K l) =
        statements (items K (m_lexer p))"
      using step PT_VERTEX by (simp add: geometry_def)
    moreover have "parse K p1 = Inr (b, p') \<Longrightarrow>
        b \<and> (\<exists>evs. m_parser p' = m_parser p1 @ evs \<and>
                map keyword_of evs = statements (items K (m_lexer p1)))" for b p'
      using "1.IH"(1) [OF l _ p1] k PT_VERTEX by simp
    ultimately show ?thesis
      by (intro goal [OF r])
  next
    case PT_TEXTURE
    then obtain p1 where p1: "parseTexture K (p\<lparr>m_lexer := l\<rparr>) = Inr p1"
      and r: "parse K p1 = Inr (b, p')"
      using "1.prems" l k by (subst (asm) parse.simps) (auto split: sum.splits)
    from parseTexture_statements [OF p1] obtain f where
      "statements (items K (m_lexer p1)) = statements (items K l)"
      "m_parser p1 = m_parser p @ [OnTexture f]"
      by auto
    moreover have "map keyword_of [OnTexture f] @ statements (items K l) =
        statements (items K (m_lexer p))"
      using step PT_TEXTURE by (simp add: geometry_def)
    moreover have "parse K p1 = Inr (b, p') \<Longrightarrow>
        b \<and> (\<exists>evs. m_parser p' = m_parser p1 @ evs \<and>
                map keyword_of evs = statements (items K (m_lexer p1)))" for b p'
      using "1.IH"(2) [OF l _ p1] k PT_TEXTURE by simp
    ultimately show ?thesis
      by (intro goal [OF r])
  next
    case PT_NORMAL
    then obtain p1 where p1: "parseNormal K (p\<lparr>m_lexer := l\<rparr>) = Inr p1"
      and r: "parse K p1 = Inr (b, p')"
      using "1.prems" l k by (subst (asm) parse.simps) (auto split: sum.splits)
    from parseNormal_statements [OF p1] obtain f where
      "statements (items K (m_lexer p1)) = statements (items K l)"
      "m_parser p1 = m_parser p @ [OnNormal f]"
      by auto
    moreover have "map keyword_of [OnNormal f] @ statements (items K l) =
        statements (items K (m_lexer p))"
      using step PT_NORMAL by (simp add: geometry_def)
    moreover have "parse K p1 = Inr (b, p') \<Longrightarrow>
        b \<and> (\<exists>evs. m_parser p' = m_parser p1 @ evs \<and>
                map keyword_of evs = statements (items K (m_lexer p1)))" for b p'
      using "1.IH"(3) [OF l _ p1] k PT_NORMAL by simp
    ultimately show ?thesis
      by (intro goal [OF r])
  next
    case PT_PARAMETER
    then obtain p1 where p1: "parseParameter K (p\<lparr>m_lexer := l\<rparr>) = Inr p1"
      and r: "parse K p1 = Inr (b, p')"
      using "1.prems" l k by (subst (asm) parse.simps) (auto split: sum.splits)
    from parseParameter_statements [OF p1] obtain f where
      "statements (items K (m_lexer p1)) = statements (items K l)"
      "m_parser p1 = m_parser p @ [OnParameter f]"
      by auto
    moreover have "map keyword_of [OnParameter f] @ statements (items K l) =
        statements (items K (m_lexer p))"
      using step PT_PARAMETER by (simp add: geometry_def)
    moreover have "parse K p1 = Inr (b, p') \<Longrightarrow>
        b \<and> (\<exists>evs. m_parser p' = m_parser p1 @ evs \<and>
                map keyword_of evs = statements (items K (m_lexer p1)))" for b p'
      using "1.IH"(4) [OF l _ p1] k PT_PARAMETER by simp
    ultimately show ?thesis
      by (intro goal [OF r])
  next
    case PT_FACE
    then obtain p1 where p1: "parseFace K (p\<lparr>m_lexer := l\<rparr>) = Inr p1"
      and r: "parse K p1 = Inr (b, p')"
      using "1.prems" l k by (subst (asm) parse.simps) (auto split: sum.splits)
    from parseFace_statements [OF p1] obtain v n where
      "statements (items K (m_lexer p1)) = statements (items K l)"
      "m_parser p1 = m_parser p @ [OnFace v n]"
      by auto
    moreover have "map keyword_of [OnFace v n] @ statements (items K l) =
        statements (items K (m_lexer p))"
      using step PT_FACE by (simp add: geometry_def)
    moreover have "parse K p1 = Inr (b, p') \<Longrightarrow>
        b \<and> (\<exists>evs. m_parser p' = m_parser p1 @ evs \<and>
                map keyword_of evs = statements (items K (m_lexer p1)))" for b p'
      using "1.IH"(5) [OF l _ p1] k PT_FACE by simp
    ultimately show ?thesis
      by (intro goal [OF r])
  qed (use other in simp_all)
qed


text \<open>
  Claim C7: on every input on which no fatal error occurs, \<^verbatim>\<open>parse()\<close> returns true, and
  it has delivered exactly one callback per recognized geometry statement, in the order
  of the input: the keywords of the callbacks delivered are the geometry keywords among
  the tokens of the input, in the same order. (The run is a total function: it ends in a
  fatal error or returns.)
\<close>

theorem C7_one_callback_per_statement:
  assumes "delivered (KAbstractObjParser_parse K u reader) = Inr (b, evs)"
  shows "b \<and> map keyword_of evs = statements (lexed K u reader)"
proof -
  from assms obtain p0 p where p0: "KAbstractObjParserPrivate K u reader = Inr p0"
    and p: "parse K p0 = Inr (b, p)" and evs: "m_parser p = evs"
    by (auto simp: delivered_def KAbstractObjParser_parse_def and_then_def
             split: sum.splits prod.splits)
  have "m_parser p0 = []"
    using p0 by (auto simp: KAbstractObjParserPrivate_def and_then_Inr parser_init_def)
  moreover have "lexed K u reader = items K (m_lexer p0)"
    using p0 by (simp add: lexed_def)
  ultimately show ?thesis
    using parse_statements [OF p] evs by auto
qed

text \<open>
  Claim C7 on an input of a normal, a group line, a face and a vertex that the end of
  input terminates.
\<close>

theorem C7_one_callback_per_statement_witness:
  "delivered (KAbstractObjParser_parse ascii garbage
     (''vn 1 2 3'' @ [CHR 0x0A] @ ''g a 1'' @ [CHR 0x0A] @ ''f 1 2'' @ [CHR 0x0A] @ ''v 1 2 3'')) =
     Inr (True, [OnNormal [1, 2, 3, - 7],
                 OnFace [(1, 0, 0), (2, 0, 0), (0, 0, 0)] 2,
                 OnVertex [1, 2, 3, 1]])
   \<and> True
   \<and> map keyword_of [OnNormal [1, 2, 3, - 7],
                 OnFace [(1, 0, 0), (2, 0, 0), (0, 0, 0)] 2,
                 OnVertex [1, 2, 3, 1]] =
       statements (lexed ascii garbage
         (''vn 1 2 3'' @ [CHR 0x0A] @ ''g a 1'' @ [CHR 0x0A] @ ''f 1 2'' @ [CHR 0x0A] @ ''v 1 2 3''))"
proof -
  have r: "delivered (KAbstractObjParser_parse ascii garbage
     (''vn 1 2 3'' @ [CHR 0x0A] @ ''g a 1'' @ [CHR 0x0A] @ ''f 1 2'' @ [CHR 0x0A] @ ''v 1 2 3'')) =
     Inr (True, [OnNormal [1, 2, 3, - 7],
                 OnFace [(1, 0, 0), (2, 0, 0), (0, 0, 0)] 2,
                 OnVertex [1, 2, 3, 1]])"
    by code_simp
  from r C7_one_callback_per_statement [OF r] show ?thesis
    by simp
qed

subsection \<open>Missing fields\<close>

lemma items_Cons: "items K l = x # rest \<Longrightarrow> item_of (m_peekToken l) = x"
  by (simp add: items_def tokens.simps [of K l])

lemma items_Cons2:
  assumes "items K l = x # y # rest"
  shows "\<exists>l'. nextToken K l = Inr l' \<and> items K l' = y # rest"
proof (cases "nextToken K l")
  case (Inl e)
  with items_Inl [OF Inl] assms show ?thesis
    by simp
next
  case (Inr l')
  with items_step [OF Inr] assms show ?thesis
    by (auto split: if_splits)
qed

lemma number_value_item_of:
  "number_value (item_of t) =
     (if m_token t = PT_FLOAT then Some (asFloat (m_attribute t))
      else if m_token t = PT_INTEGER then Some (real_of_int (asInteger (m_attribute t)))
      else None)"
  by (cases "m_token t") (simp_all add: item_of_def)

lemma parseFloat_at_missing:
  assumes "number_value (item_of (m_peekToken (m_lexer p))) = None"
  shows "parseFloat_at K i p = Inr (False, p)"
  using assms
  by (cases "m_token (m_peekToken (m_lexer p))")
     (simp_all add: parseFloat_at_def parseFloat_def peekToken_def number_value_item_of
        and_then_def)

lemma parseFloat_at_present:
  assumes "items K (m_lexer p) = x # y # rest" and "number_value x = Some v"
  shows "\<exists>l. parseFloat_at K i p =
               Inr (True, p\<lparr>m_lexer := l, m_float4 := (m_float4 p)(i := v)\<rparr>) \<and>
             items K l = y # rest"
proof -
  from items_Cons2 [OF assms(1)] obtain l where l: "nextToken K (m_lexer p) = Inr l"
    and rest: "items K l = y # rest"
    by blast
  have x: "item_of (m_peekToken (m_lexer p)) = x"
    by (rule items_Cons [OF assms(1)])
  have cur: "m_currToken l = m_peekToken (m_lexer p)"
    by (rule nextToken_currToken [OF l])
  from assms(2) x have
    "parseFloat_at K i p = Inr (True, p\<lparr>m_lexer := l, m_float4 := (m_float4 p)(i := v)\<rparr>)"
    by (auto simp: parseFloat_at_def parseFloat_def peekToken_def number_value_item_of
          and_then_def l cur split: if_splits)
  with rest show ?thesis
    by blast
qed

lemma parseFloat_at_missing_items:
  assumes "items K (m_lexer p) = t # rest" and "number_value t = None"
  shows "parseFloat_at K i p = Inr (False, p)"
  using items_Cons [OF assms(1)] assms(2) by (intro parseFloat_at_missing) simp

text \<open>
  The first three reads of a vertex, texture or normal statement that supplies fewer
  than three numbers: the parser after them, whatever follows.
\<close>

lemma three_reads:
  assumes its: "items K (m_lexer p) = ts @ t # rest"
    and ts: "\<forall>x\<in>set ts. number_value x \<noteq> None"
    and t: "number_value t = None"
    and len: "length ts < 3"
  shows "\<exists>l f.
    (\<forall>F. and_then (parseFloat_at K 0 p) (\<lambda>(b0, p0).
          and_then (parseFloat_at K 1 p0) (\<lambda>(b1, p1).
          and_then (parseFloat_at K 2 p1) (\<lambda>(b2, p2). F b2 p2))) =
        F False (p\<lparr>m_lexer := l, m_float4 := f\<rparr>)) \<and>
    items K l = t # rest \<and>
    (\<forall>i. length ts \<le> i \<longrightarrow> f i = m_float4 p i) \<and>
    (\<forall>i<length ts. number_value (ts ! i) = Some (f i))"
proof -
  have "ts = [] \<or> (\<exists>a. ts = [a]) \<or> (\<exists>a b. ts = [a, b])"
    using len by (auto simp: less_Suc_eq numeral_3_eq_3 length_Suc_conv)
  then consider (0) "ts = []" | (1) a where "ts = [a]" | (2) a b where "ts = [a, b]"
    by blast
  then show ?thesis
  proof cases
    case 0
    have m: "parseFloat_at K i p = Inr (False, p)" for i
      using its t 0 by (intro parseFloat_at_missing_items [of K p t rest]) simp_all
    show ?thesis
      by (rule exI [of _ "m_lexer p"], rule exI [of _ "m_float4 p"])
         (use its 0 in \<open>simp add: m and_then_def\<close>)
  next
    case 1
    from ts 1 obtain va where va: "number_value a = Some va"
      by auto
    from parseFloat_at_present [of K p a t rest va 0] its 1 va
    obtain l1 where r0: "parseFloat_at K 0 p =
        Inr (True, p\<lparr>m_lexer := l1, m_float4 := (m_float4 p)(0 := va)\<rparr>)"
      and i1: "items K l1 = t # rest"
      by auto
    have m: "parseFloat_at K i (p\<lparr>m_lexer := l1, m_float4 := (m_float4 p)(0 := va)\<rparr>) =
        Inr (False, p\<lparr>m_lexer := l1, m_float4 := (m_float4 p)(0 := va)\<rparr>)" for i
      using i1 t by (intro parseFloat_at_missing_items [of K _ t rest]) simp_all
    show ?thesis
      by (rule exI [of _ l1], rule exI [of _ "(m_float4 p)(0 := va)"])
         (use i1 1 va in \<open>simp add: r0 m and_then_def\<close>)
  next
    case 2
    from ts 2 obtain va vb where va: "number_value a = Some va" and vb: "number_value b = Some vb"
      by auto
    from parseFloat_at_present [of K p a b "t # rest" va 0] its 2 va
    obtain l1 where r0: "parseFloat_at K 0 p =
        Inr (True, p\<lparr>m_lexer := l1, m_float4 := (m_float4 p)(0 := va)\<rparr>)"
      and i1: "items K l1 = b # t # rest"
      by auto
    from parseFloat_at_present
      [of K "p\<lparr>m_lexer := l1, m_float4 := (m_float4 p)(0 := va)\<rparr>" b t rest vb "Suc 0"] i1 vb
    obtain l2 where r1: "parseFloat_at K (Suc 0) (p\<lparr>m_lexer := l1, m_float4 := (m_float4 p)(0 := va)\<rparr>) =
        Inr (True, p\<lparr>m_lexer := l2, m_float4 := (m_float4 p)(0 := va, Suc 0 := vb)\<rparr>)"
      and i2: "items K l2 = t # rest"
      by auto
    have m: "parseFloat_at K i (p\<lparr>m_lexer := l2, m_float4 := (m_float4 p)(0 := va, Suc 0 := vb)\<rparr>) =
        Inr (False, p\<lparr>m_lexer := l2, m_float4 := (m_float4 p)(0 := va, Suc 0 := vb)\<rparr>)" for i
      using i2 t by (intro parseFloat_at_missing_items [of K _ t rest]) simp_all
    show ?thesis
      by (rule exI [of _ l2], rule exI [of _ "(m_float4 p)(0 := va, Suc 0 := vb)"])
         (use i2 2 va vb in \<open>simp add: r0 r1 m and_then_def less_Suc_eq\<close>)
  qed
qed


lemma parseVertex_missing:
  assumes its: "items K (m_lexer p) = ts @ t # rest"
    and ts: "\<forall>x\<in>set ts. number_value x \<noteq> None"
    and t: "number_value t = None"
    and len: "length ts < 3"
  shows "\<exists>p'. parseVertex K p = Inr p' \<and>
    m_vertexCount p' = m_vertexCount p + 1 \<and>
    (\<forall>i. length ts \<le> i \<and> i < 3 \<longrightarrow> m_float4 p' i = m_float4 p i) \<and>
    (\<forall>i<length ts. number_value (ts ! i) = Some (m_float4 p' i)) \<and>
    m_float4 p' 3 = 1 \<and>
    m_parser p' = m_parser p @ [OnVertex (float4 p')]"
proof -
  define p0 where "p0 = p\<lparr>m_vertexCount := m_vertexCount p + 1\<rparr>"
  have "items K (m_lexer p0) = ts @ t # rest"
    using its by (simp add: p0_def)
  from three_reads [OF this ts t len] obtain l f where
    eq: "\<And>F :: bool \<Rightarrow> parser \<Rightarrow> error + parser. and_then (parseFloat_at K 0 p0) (\<lambda>(b0, p0).
          and_then (parseFloat_at K 1 p0) (\<lambda>(b1, p1).
          and_then (parseFloat_at K 2 p1) (\<lambda>(b2, p2). F b2 p2))) =
        F False (p0\<lparr>m_lexer := l, m_float4 := f\<rparr>)"
    and l: "items K l = t # rest"
    and stale: "\<forall>i. length ts \<le> i \<longrightarrow> f i = m_float4 p0 i"
    and read: "\<forall>i<length ts. number_value (ts ! i) = Some (f i)"
    by blast
  have m: "parseFloat_at K 3 (p0\<lparr>m_lexer := l, m_float4 := f\<rparr>) =
      Inr (False, p0\<lparr>m_lexer := l, m_float4 := f\<rparr>)"
    using l t by (intro parseFloat_at_missing_items [of K _ t rest]) simp_all
  have "parseVertex K p =
      Inr (emit (OnVertex (float4 (p0\<lparr>m_lexer := l, m_float4 := f(3 := 1)\<rparr>)))
             (p0\<lparr>m_lexer := l, m_float4 := f(3 := 1)\<rparr>))"
    unfolding parseVertex_def p0_def [symmetric]
      eq [of "\<lambda>b2 p2. and_then (parseFloat_at K 3 p2) (\<lambda>(b3, p3).
        let p4 = (if \<not> b3 then p3\<lparr>m_float4 := (m_float4 p3)(3 := 1)\<rparr> else p3)
        in Inr (emit (OnVertex (float4 p4)) p4))"]
    by (simp add: m and_then_def Let_def)
  then show ?thesis
    using stale read len by (simp add: p0_def emit_def float4_def)
qed

lemma parseTexture_missing:
  assumes its: "items K (m_lexer p) = ts @ t # rest"
    and ts: "\<forall>x\<in>set ts. number_value x \<noteq> None"
    and t: "number_value t = None"
    and len: "length ts < 2"
  shows "\<exists>p'. parseTexture K p = Inr p' \<and>
    m_textureCount p' = m_textureCount p + 1 \<and>
    (\<forall>i. length ts \<le> i \<and> i < 2 \<longrightarrow> m_float4 p' i = m_float4 p i) \<and>
    (\<forall>i<length ts. number_value (ts ! i) = Some (m_float4 p' i)) \<and>
    m_float4 p' 2 = 1 \<and>
    m_parser p' = m_parser p @ [OnTexture (float4 p')]"
proof -
  define p0 where "p0 = p\<lparr>m_textureCount := m_textureCount p + 1\<rparr>"
  have "items K (m_lexer p0) = ts @ t # rest" and "length ts < 3"
    using its len by (simp_all add: p0_def)
  from three_reads [OF this(1) ts t this(2)] obtain l f where
    eq: "\<And>F :: bool \<Rightarrow> parser \<Rightarrow> error + parser. and_then (parseFloat_at K 0 p0) (\<lambda>(b0, p0).
          and_then (parseFloat_at K 1 p0) (\<lambda>(b1, p1).
          and_then (parseFloat_at K 2 p1) (\<lambda>(b2, p2). F b2 p2))) =
        F False (p0\<lparr>m_lexer := l, m_float4 := f\<rparr>)"
    and stale: "\<forall>i. length ts \<le> i \<longrightarrow> f i = m_float4 p0 i"
    and read: "\<forall>i<length ts. number_value (ts ! i) = Some (f i)"
    by blast
  have "parseTexture K p =
      Inr (emit (OnTexture (float4 (p0\<lparr>m_lexer := l, m_float4 := f(2 := 1)\<rparr>)))
             (p0\<lparr>m_lexer := l, m_float4 := f(2 := 1)\<rparr>))"
    unfolding parseTexture_def p0_def [symmetric]
      eq [of "\<lambda>b2 p2.
        let p3 = (if \<not> b2 then p2\<lparr>m_float4 := (m_float4 p2)(2 := 1)\<rparr> else p2)
        in Inr (emit (OnTexture (float4 p3)) p3)"]
    by (simp add: Let_def)
  then show ?thesis
    using stale read len by (simp add: p0_def emit_def float4_def)
qed

lemma parseNormal_missing:
  assumes its: "items K (m_lexer p) = ts @ t # rest"
    and ts: "\<forall>x\<in>set ts. number_value x \<noteq> None"
    and t: "number_value t = None"
    and len: "length ts < 3"
  shows "\<exists>p'. parseNormal K p = Inr p' \<and>
    m_normalCount p' = m_normalCount p + 1 \<and>
    (\<forall>i. length ts \<le> i \<and> i < 3 \<longrightarrow> m_float4 p' i = m_float4 p i) \<and>
    (\<forall>i<length ts. number_value (ts ! i) = Some (m_float4 p' i)) \<and>
    m_parser p' = m_parser p @ [OnNormal (float4 p')]"
proof -
  define p0 where "p0 = p\<lparr>m_normalCount := m_normalCount p + 1\<rparr>"
  have "items K (m_lexer p0) = ts @ t # rest"
    using its by (simp add: p0_def)
  from three_reads [OF this ts t len] obtain l f where
    eq: "\<And>F :: bool \<Rightarrow> parser \<Rightarrow> error + parser. and_then (parseFloat_at K 0 p0) (\<lambda>(b0, p0).
          and_then (parseFloat_at K 1 p0) (\<lambda>(b1, p1).
          and_then (parseFloat_at K 2 p1) (\<lambda>(b2, p2). F b2 p2))) =
        F False (p0\<lparr>m_lexer := l, m_float4 := f\<rparr>)"
    and stale: "\<forall>i. length ts \<le> i \<longrightarrow> f i = m_float4 p0 i"
    and read: "\<forall>i<length ts. number_value (ts ! i) = Some (f i)"
    by blast
  have "parseNormal K p =
      Inr (emit (OnNormal (float4 (p0\<lparr>m_lexer := l, m_float4 := f\<rparr>)))
             (p0\<lparr>m_lexer := l, m_float4 := f\<rparr>))"
    unfolding parseNormal_def p0_def [symmetric]
      eq [of "\<lambda>b2 p2. Inr (emit (OnNormal (float4 p2)) p2)"]
    by simp
  then show ?thesis
    using stale read len by (simp add: p0_def emit_def float4_def)
qed


text \<open>
  Claim C10: a vertex, texture or normal statement that misses one of its mandatory
  numeric fields does not abort the parse and reports no error. Let the tokens after
  the keyword be the numbers \<open>ts\<close>, fewer than the statement has mandatory fields,
  followed by a token \<open>t\<close> that is not a number. Then the statement rule returns; the
  counter of the statement is incremented; each mandatory slot of \<open>m_float4\<close> from
  \<open>length ts\<close> on holds what it held before the statement; and the callback is invoked
  with the buffer in this state.
\<close>

theorem C10_missing_fields_keep_stale_values:
  assumes "items K (m_lexer p) = ts @ t # rest"
    and "\<forall>x\<in>set ts. number_value x \<noteq> None"
    and "number_value t = None"
  shows
    "(length ts < 3 \<longrightarrow>
       (\<exists>p'. parseVertex K p = Inr p' \<and>
          m_vertexCount p' = m_vertexCount p + 1 \<and>
          (\<forall>i. length ts \<le> i \<and> i < 3 \<longrightarrow> m_float4 p' i = m_float4 p i) \<and>
          m_parser p' = m_parser p @ [OnVertex (float4 p')])) \<and>
     (length ts < 2 \<longrightarrow>
       (\<exists>p'. parseTexture K p = Inr p' \<and>
          m_textureCount p' = m_textureCount p + 1 \<and>
          (\<forall>i. length ts \<le> i \<and> i < 2 \<longrightarrow> m_float4 p' i = m_float4 p i) \<and>
          m_parser p' = m_parser p @ [OnTexture (float4 p')])) \<and>
     (length ts < 3 \<longrightarrow>
       (\<exists>p'. parseNormal K p = Inr p' \<and>
          m_normalCount p' = m_normalCount p + 1 \<and>
          (\<forall>i. length ts \<le> i \<and> i < 3 \<longrightarrow> m_float4 p' i = m_float4 p i) \<and>
          m_parser p' = m_parser p @ [OnNormal (float4 p')]))"
proof (intro conjI impI)
  assume "length ts < 3"
  from parseVertex_missing [OF assms this]
  show "\<exists>p'. parseVertex K p = Inr p' \<and>
          m_vertexCount p' = m_vertexCount p + 1 \<and>
          (\<forall>i. length ts \<le> i \<and> i < 3 \<longrightarrow> m_float4 p' i = m_float4 p i) \<and>
          m_parser p' = m_parser p @ [OnVertex (float4 p')]"
    by blast
next
  assume "length ts < 2"
  from parseTexture_missing [OF assms this]
  show "\<exists>p'. parseTexture K p = Inr p' \<and>
          m_textureCount p' = m_textureCount p + 1 \<and>
          (\<forall>i. length ts \<le> i \<and> i < 2 \<longrightarrow> m_float4 p' i = m_float4 p i) \<and>
          m_parser p' = m_parser p @ [OnTexture (float4 p')]"
    by blast
next
  assume "length ts < 3"
  from parseNormal_missing [OF assms this]
  show "\<exists>p'. parseNormal K p = Inr p' \<and>
          m_normalCount p' = m_normalCount p + 1 \<and>
          (\<forall>i. length ts \<le> i \<and> i < 3 \<longrightarrow> m_float4 p' i = m_float4 p i) \<and>
          m_parser p' = m_parser p @ [OnNormal (float4 p')]"
    by blast
qed


text \<open>
  Claim C10 on the statement \<^verbatim>\<open>vn 5\<close>, the first of its input: one number, then the end
  of the statement.
\<close>

theorem C10_missing_fields_keep_stale_values_witness:
  "items ascii (m_lexer (the (dispatched ascii garbage (''vn 5'' @ [CHR 0x0A])))) =
     [Integer 5] @ Other PT_ENDSTATEMENT # [Other PT_EOF]
   \<and> number_value (Integer 5) \<noteq> None
   \<and> number_value (Other PT_ENDSTATEMENT) = None
   \<and> length [Integer 5] < 3 \<and> length [Integer 5] < 2
   \<and> (\<exists>p'. parseVertex ascii (the (dispatched ascii garbage (''vn 5'' @ [CHR 0x0A]))) = Inr p' \<and>
          m_vertexCount p' = m_vertexCount (the (dispatched ascii garbage (''vn 5'' @ [CHR 0x0A]))) + 1 \<and>
          (\<forall>i. length [Integer 5] \<le> i \<and> i < 3 \<longrightarrow>
             m_float4 p' i = m_float4 (the (dispatched ascii garbage (''vn 5'' @ [CHR 0x0A]))) i) \<and>
          m_parser p' = m_parser (the (dispatched ascii garbage (''vn 5'' @ [CHR 0x0A]))) @
            [OnVertex (float4 p')])
   \<and> (\<exists>p'. parseTexture ascii (the (dispatched ascii garbage (''vn 5'' @ [CHR 0x0A]))) = Inr p' \<and>
          m_textureCount p' = m_textureCount (the (dispatched ascii garbage (''vn 5'' @ [CHR 0x0A]))) + 1 \<and>
          (\<forall>i. length [Integer 5] \<le> i \<and> i < 2 \<longrightarrow>
             m_float4 p' i = m_float4 (the (dispatched ascii garbage (''vn 5'' @ [CHR 0x0A]))) i) \<and>
          m_parser p' = m_parser (the (dispatched ascii garbage (''vn 5'' @ [CHR 0x0A]))) @
            [OnTexture (float4 p')])
   \<and> (\<exists>p'. parseNormal ascii (the (dispatched ascii garbage (''vn 5'' @ [CHR 0x0A]))) = Inr p' \<and>
          m_normalCount p' = m_normalCount (the (dispatched ascii garbage (''vn 5'' @ [CHR 0x0A]))) + 1 \<and>
          (\<forall>i. length [Integer 5] \<le> i \<and> i < 3 \<longrightarrow>
             m_float4 p' i = m_float4 (the (dispatched ascii garbage (''vn 5'' @ [CHR 0x0A]))) i) \<and>
          m_parser p' = m_parser (the (dispatched ascii garbage (''vn 5'' @ [CHR 0x0A]))) @
            [OnNormal (float4 p')])"
proof -
  have its: "items ascii (m_lexer (the (dispatched ascii garbage (''vn 5'' @ [CHR 0x0A])))) =
     [Integer 5] @ Other PT_ENDSTATEMENT # [Other PT_EOF]"
    by code_simp
  have ts: "\<forall>x\<in>set [Integer 5]. number_value x \<noteq> None"
    and t: "number_value (Other PT_ENDSTATEMENT) = None"
    by simp_all
  from its ts t C10_missing_fields_keep_stale_values [OF its ts t] show ?thesis
    by simp
qed

subsection \<open>The index groups of a face statement\<close>

lemma item_of_Integer:
  "item_of t = Integer i \<longleftrightarrow> m_token t = PT_INTEGER \<and> asInteger (m_attribute t) = i"
  by (cases "m_token t") (auto simp: item_of_def)

lemma item_of_Other:
  "item_of t = Other k \<longleftrightarrow> m_token t = k \<and> k \<noteq> PT_INTEGER \<and> k \<noteq> PT_FLOAT"
  by (cases "m_token t") (auto simp: item_of_def)

lemma is_Integer_item_of: "is_Integer (item_of t) \<longleftrightarrow> m_token t = PT_INTEGER"
  by (cases "m_token t") (auto simp: item_of_def)

lemma parseInteger_present:
  assumes "items K l = Integer i # y # rest"
  shows "\<exists>l'. parseInteger K j l = Inr (True, word_of_int i, l') \<and> items K l' = y # rest"
proof -
  from items_Cons2 [OF assms] obtain l' where l': "nextToken K l = Inr l'"
    and rest: "items K l' = y # rest"
    by blast
  have "m_token (m_peekToken l) = PT_INTEGER" "asInteger (m_attribute (m_peekToken l)) = i"
    using items_Cons [OF assms] by (simp_all add: item_of_Integer)
  then have "parseInteger K j l = Inr (True, word_of_int i, l')"
    using nextToken_currToken [OF l'] by (simp add: parseInteger_def peekToken_def and_then_def l')
  with rest show ?thesis
    by blast
qed

lemma parseInteger_absent:
  assumes "items K l = x # rest" and "\<not> is_Integer x"
  shows "parseInteger K j l = Inr (False, j, l)"
  using items_Cons [OF assms(1)] assms(2)
  by (auto simp: parseInteger_def peekToken_def is_Integer_item_of)

lemma checkToken_present:
  assumes "items K l = Other PT_SEPARATOR # y # rest"
  shows "\<exists>l'. checkToken K PT_SEPARATOR l = Inr (True, l') \<and> items K l' = y # rest"
proof -
  from items_Cons2 [OF assms] obtain l' where l': "nextToken K l = Inr l'"
    and rest: "items K l' = y # rest"
    by blast
  have "m_token (m_peekToken l) = PT_SEPARATOR"
    using items_Cons [OF assms] by (simp add: item_of_Other)
  then have "checkToken K PT_SEPARATOR l = Inr (True, l')"
    by (simp add: checkToken_def peekToken_def l')
  with rest show ?thesis
    by blast
qed

lemma checkToken_absent:
  assumes "items K l = x # rest" and "x \<noteq> Other PT_SEPARATOR"
  shows "checkToken K PT_SEPARATOR l = Inr (False, l)"
proof -
  have "m_token (m_peekToken l) \<noteq> PT_SEPARATOR"
    using items_Cons [OF assms(1)] assms(2) by (auto simp: item_of_def)
  then show ?thesis
    by (simp add: checkToken_def peekToken_def)
qed

text \<open>
  One block of \<^verbatim>\<open>parseFaceIndices\<close> on a separator with its integer, on a separator
  without an integer, and on no separator.
\<close>

lemma parseFaceIndices_sub_index:
  assumes "items K l = Other PT_SEPARATOR # Integer i # y # rest"
  shows "\<exists>l'. parseFaceIndices_sub K j l = Inr (word_of_int i, l') \<and> items K l' = y # rest"
proof -
  from checkToken_present [OF assms] obtain l1 where
    c: "checkToken K PT_SEPARATOR l = Inr (True, l1)" and i1: "items K l1 = Integer i # y # rest"
    by blast
  from parseInteger_present [OF i1, of j] obtain l2 where
    "parseInteger K j l1 = Inr (True, word_of_int i, l2)" "items K l2 = y # rest"
    by blast
  then show ?thesis
    using c by (simp add: parseFaceIndices_sub_def and_then_def)
qed

lemma parseFaceIndices_sub_empty:
  assumes "items K l = Other PT_SEPARATOR # y # rest" and "\<not> is_Integer y"
  shows "\<exists>l'. parseFaceIndices_sub K j l = Inr (0, l') \<and> items K l' = y # rest"
proof -
  from checkToken_present [OF assms(1)] obtain l1 where
    c: "checkToken K PT_SEPARATOR l = Inr (True, l1)" and i1: "items K l1 = y # rest"
    by blast
  from parseInteger_absent [OF i1 assms(2)] have "parseInteger K j l1 = Inr (False, j, l1)" .
  then show ?thesis
    using c i1 by (simp add: parseFaceIndices_sub_def and_then_def)
qed

lemma parseFaceIndices_sub_absent:
  assumes "items K l = y # rest" and "y \<noteq> Other PT_SEPARATOR"
  shows "parseFaceIndices_sub K j l = Inr (0, l)"
  using checkToken_absent [OF assms] by (simp add: parseFaceIndices_sub_def and_then_def)


lemma parseFaceIndices_sub_optional:
  assumes "items K l = Other PT_SEPARATOR # optional t @ y # rest"
    and "t = None \<longrightarrow> \<not> is_Integer y"
  shows "\<exists>l'. parseFaceIndices_sub K j l = Inr (slot t, l') \<and> items K l' = y # rest"
proof (cases t)
  case None
  with assms parseFaceIndices_sub_empty [of K l y rest j] show ?thesis
    by simp
next
  case (Some i)
  with assms parseFaceIndices_sub_index [of K l i y rest j] show ?thesis
    by simp
qed

text \<open>
  \<^verbatim>\<open>parseFaceIndices\<close> on the tokens of a group \<open>g\<close> that the token \<open>y\<close> follows: \<open>y\<close> is no
  separator, and no integer when the group ends with a separator.
\<close>

lemma parseFaceIndices_group:
  assumes its: "items K l = group_items g @ y # rest"
    and sep: "y \<noteq> Other PT_SEPARATOR"
    and open_ended: "open_ended g \<longrightarrow> \<not> is_Integer y"
  shows "\<exists>l'. parseFaceIndices K ix l = Inr (True, group_indices g, l') \<and> items K l' = y # rest"
proof -
  obtain i0 i1 i2 where ix: "ix = (i0, i1, i2)"
    by (cases ix) auto
  show ?thesis
  proof (cases g)
    case (V v)
    from parseInteger_present [of K l v y rest i0] its V obtain l0 where
      r0: "parseInteger K i0 l = Inr (True, word_of_int v, l0)" and i: "items K l0 = y # rest"
      by auto
    have "parseFaceIndices_sub K j l0 = Inr (0, l0)" for j
      by (rule parseFaceIndices_sub_absent [OF i sep])
    then show ?thesis
      using r0 i V by (simp add: parseFaceIndices_def ix and_then_def)
  next
    case (VT v t)
    from parseInteger_present [of K l v "Other PT_SEPARATOR" "optional t @ y # rest" i0] its VT
    obtain l0 where r0: "parseInteger K i0 l = Inr (True, word_of_int v, l0)"
      and i: "items K l0 = Other PT_SEPARATOR # optional t @ y # rest"
      by auto
    from parseFaceIndices_sub_optional [OF i, of i1] open_ended VT obtain l1 where
      r1: "parseFaceIndices_sub K i1 l0 = Inr (slot t, l1)" and i': "items K l1 = y # rest"
      by auto
    have "parseFaceIndices_sub K i2 l1 = Inr (0, l1)"
      by (rule parseFaceIndices_sub_absent [OF i' sep])
    then show ?thesis
      using r0 r1 i' VT by (simp add: parseFaceIndices_def ix and_then_def)
  next
    case (VTN v t n)
    from parseInteger_present
      [of K l v "Other PT_SEPARATOR" "optional t @ Other PT_SEPARATOR # optional n @ y # rest" i0]
      its VTN
    obtain l0 where r0: "parseInteger K i0 l = Inr (True, word_of_int v, l0)"
      and i: "items K l0 =
        Other PT_SEPARATOR # optional t @ Other PT_SEPARATOR # (optional n @ y # rest)"
      by auto
    from parseFaceIndices_sub_optional [OF i, of i1] obtain l1 where
      r1: "parseFaceIndices_sub K i1 l0 = Inr (slot t, l1)"
      and i': "items K l1 = Other PT_SEPARATOR # optional n @ y # rest"
      by auto
    from parseFaceIndices_sub_optional [OF i', of i2] open_ended VTN obtain l2 where
      r2: "parseFaceIndices_sub K i2 l1 = Inr (slot n, l2)" and i'': "items K l2 = y # rest"
      by auto
    show ?thesis
      using r0 r1 r2 i'' VTN by (simp add: parseFaceIndices_def ix and_then_def)
  qed
qed

lemma group_items_Integer: "\<exists>v r. group_items g = Integer v # r"
  by (cases g) auto

lemma parseFace_loop_groups:
  assumes "items K l = concat (map group_items gs) @ t # rest"
    and "\<forall>g\<in>set (butlast gs). \<not> open_ended g"
    and "t \<noteq> Other PT_SEPARATOR" and "\<not> is_Integer t"
  shows "\<exists>l'. parseFace_loop K v l = Inr (v @ map group_indices gs @ [(0, 0, 0)], l') \<and>
              items K l' = t # rest"
  using assms
proof (induction gs arbitrary: v l)
  case Nil
  then have "parseFaceIndices K (0, 0, 0) l = Inr (False, (0, 0, 0), l)"
    using parseInteger_absent [of K l t rest 0]
    by (simp add: parseFaceIndices_def and_then_def)
  then have "parseFace_loop K v l = Inr (v @ [(0, 0, 0)], l)"
    by (subst parseFace_loop.simps) simp
  with Nil show ?case
    by simp
next
  case (Cons g gs)
  define tail where "tail = concat (map group_items gs) @ t # rest"
  obtain y rest' where tail: "tail = y # rest'"
    by (cases tail) (auto simp: tail_def)
  have y_sep: "y \<noteq> Other PT_SEPARATOR"
  proof (cases gs)
    case Nil
    with tail Cons.prems(3) show ?thesis
      by (simp add: tail_def)
  next
    case (Cons g' gs')
    with tail group_items_Integer [of g'] show ?thesis
      by (auto simp: tail_def)
  qed
  have y_int: "open_ended g \<longrightarrow> \<not> is_Integer y"
  proof (cases gs)
    case Nil
    with tail Cons.prems(4) show ?thesis
      by (simp add: tail_def)
  next
    case (Cons g' gs')
    with Cons.prems(2) show ?thesis
      by simp
  qed
  have "items K l = group_items g @ y # rest'"
    using Cons.prems(1) tail by (simp add: tail_def)
  from parseFaceIndices_group [OF this y_sep y_int, of "(0, 0, 0)"] obtain l1 where
    r: "parseFaceIndices K (0, 0, 0) l = Inr (True, group_indices g, l1)"
    and i: "items K l1 = concat (map group_items gs) @ t # rest"
    using tail by (auto simp: tail_def)
  have "\<forall>g\<in>set (butlast gs). \<not> open_ended g"
    using Cons.prems(2) by (cases gs) auto
  from Cons.IH [OF i this Cons.prems(3,4), of "v @ [group_indices g]"] obtain l' where
    "parseFace_loop K (v @ [group_indices g]) l1 =
       Inr ((v @ [group_indices g]) @ map group_indices gs @ [(0, 0, 0)], l')"
    "items K l' = t # rest"
    by blast
  then show ?case
    using r by (subst parseFace_loop.simps) simp
qed

lemma parseFace_groups:
  assumes "items K (m_lexer p) = concat (map group_items gs) @ t # rest"
    and "\<forall>g\<in>set (butlast gs). \<not> open_ended g"
    and "t \<noteq> Other PT_SEPARATOR" and "\<not> is_Integer t"
  shows "\<exists>p'. parseFace K p = Inr p' \<and>
    m_parser p' = m_parser p @ [OnFace (map group_indices gs @ [(0, 0, 0)]) (length gs)]"
proof -
  from parseFace_loop_groups [OF assms, of "[]"] obtain l' where
    "parseFace_loop K [] (m_lexer p) = Inr (map group_indices gs @ [(0, 0, 0)], l')"
    by auto
  then show ?thesis
    by (simp add: parseFace_def and_then_def)
qed


subsection \<open>The characters of a face statement\<close>

lemma pending_chars_Cons:
  "pending_chars l = c # cs \<longleftrightarrow> m_peekChar l = Some c \<and> m_reader l = cs"
  by (auto simp: pending_chars_def split: option.splits)

lemma pending_chars_nextChar:
  "pending_chars l = c # cs \<Longrightarrow> pending_chars (nextChar l) = cs"
  by (cases cs)
     (auto simp: pending_chars_def nextChar_def reader_next_def Let_def split: option.splits)

lemma pending_chars_set [simp]:
  "pending_chars (set_asInteger i l) = pending_chars l"
  "pending_chars (swap_tokens l) = pending_chars l"
  by (simp_all add: pending_chars_def set_asInteger_def swap_tokens_def split: option.splits)

lemma set_asInteger_sel [simp]:
  "m_currToken (set_asInteger i l) = m_currToken l"
  "asInteger (m_attribute (m_peekToken (set_asInteger i l))) = i"
  "m_token (m_peekToken (set_asInteger i l)) = m_token (m_peekToken l)"
  by (simp_all add: set_asInteger_def)

lemma pending_chars_Nil: "pending_chars l = [] \<longleftrightarrow> m_peekChar l = None"
  by (simp add: pending_chars_def split: option.splits)

lemma lexReadInteger_loop_decimal:
  assumes "pending_chars l = ds @ after"
    and "\<forall>d\<in>set ds. isNumeric K d"
    and "case after of [] \<Rightarrow> True | c # cs \<Rightarrow> \<not> isNumeric K c"
  shows "\<exists>l'. lexReadInteger_loop K i l =
           (foldl (\<lambda>i d. wrap_int (wrap_int (i * 10) + ctoi K (Some d))) i ds, l') \<and>
         pending_chars l' = after \<and> m_peekToken l' = m_peekToken l \<and>
         m_currToken l' = m_currToken l"
  using assms
proof (induction ds arbitrary: i l)
  case Nil
  then have "\<not> isNumeric_cell K (m_peekChar l)"
    by (cases after) (simp_all add: pending_chars_Nil pending_chars_Cons isNumeric_cell_def)
  with Nil show ?case
    by (subst lexReadInteger_loop.simps) simp
next
  case (Cons d ds)
  define j where "j = wrap_int (wrap_int (i * 10) + ctoi K (Some d))"
  have p: "m_peekChar l = Some d"
    using Cons.prems(1) by (simp add: pending_chars_Cons)
  have "pending_chars (nextChar l) = ds @ after"
    using Cons.prems(1) pending_chars_nextChar [of l d "ds @ after"] by simp
  from Cons.IH [OF this, of j] Cons.prems(2,3)
  obtain l' where
    "lexReadInteger_loop K j (nextChar l) =
       (foldl (\<lambda>i d. wrap_int (wrap_int (i * 10) + ctoi K (Some d))) j ds, l')"
    "pending_chars l' = after" "m_peekToken l' = m_peekToken l" "m_currToken l' = m_currToken l"
    by auto
  then show ?case
    using p Cons.prems(2)
    by (subst lexReadInteger_loop.simps) (simp add: isNumeric_cell_def j_def)
qed

lemma lexToken_loop_whitespace:
  assumes "whitespace w" and "pending_chars l = w @ r"
  shows "\<exists>l'. lexToken_loop K l = lexToken_loop K l' \<and> pending_chars l' = r \<and>
              m_peekToken l' = m_peekToken l \<and> m_currToken l' = m_currToken l"
  using assms
proof (induction w arbitrary: l)
  case Nil
  then show ?case
    by auto
next
  case (Cons c w)
  have c: "c = CHR '' '' \<or> c = CHR 0x09 \<or> c = CHR 0x0D" and w: "whitespace w"
    using Cons.prems(1) by (auto simp: whitespace_def)
  have p: "m_peekChar l = Some c"
    using Cons.prems(2) by (simp add: pending_chars_Cons)
  have "pending_chars (nextChar l) = w @ r"
    using Cons.prems(2) pending_chars_nextChar [of l c "w @ r"] by simp
  from Cons.IH [OF w this] obtain l' where
    "lexToken_loop K (nextChar l) = lexToken_loop K l'" "pending_chars l' = r"
    "m_peekToken l' = m_peekToken l" "m_currToken l' = m_currToken l"
    by auto
  moreover have "lexToken_loop K l = lexToken_loop K (nextChar l)"
    using p c by (subst lexToken_loop.simps) auto
  ultimately show ?case
    by auto
qed

lemma delimited_simps [simp]:
  "delimited []" "delimited (c # cs) = delimiter c"
  by (simp_all add: delimited_def)

lemma spaced_text_Nil [simp]: "spaced_text [] = []"
  by (simp add: spaced_text_def)

lemma lexToken_skips_line:
  "lexToken K l =
     lexToken_loop K (if skips_line (m_token (m_currToken l)) then nextLine l else l)"
  by (cases "m_token (m_currToken l)") (simp_all add: lexToken_def currToken_def skips_line_def)

lemma lexToken_no_skip: "\<not> skips_line (m_token (m_currToken l)) \<Longrightarrow> lexToken K l = lexToken_loop K l"
  by (cases "m_token (m_currToken l)") (simp_all add: lexToken_def currToken_def skips_line_def)

lemma decimal_digit:
  assumes "d \<in> set ''0123456789''"
  shows "d \<noteq> CHR '' ''" "d \<noteq> CHR 0x09" "d \<noteq> CHR 0x0D" "d \<noteq> CHR 0x0A" "d \<noteq> CHR ''#''"
    "d \<noteq> CHR ''/''" "d \<noteq> CHR ''-''" "d \<noteq> CHR ''+''"
  using assms by auto

text \<open>
  \<^verbatim>\<open>lexTokenInteger\<close> on a decimal numeral of any length that ends at the end of input
  or before a delimiter: the token is the integer that the numeral wraps to.
\<close>

lemma lexTokenInteger_decimal:
  assumes K: "reads_decimals K"
    and d: "m_currChar l = Some d" "d \<in> set ''0123456789''"
    and ds: "set ds \<subseteq> set ''0123456789''"
    and p: "pending_chars l = ds @ after" and c: "delimited after"
  shows "\<exists>l'. lexTokenInteger K l = (PT_INTEGER, l') \<and> pending_chars l' = after \<and>
    asInteger (m_attribute (m_peekToken l')) = decimal_value K (d # ds) \<and>
    m_currToken l' = m_currToken l"
proof -
  have num: "\<forall>d\<in>set ds. isNumeric K d"
    using K ds unfolding reads_decimals_def by blast
  have nc: "case after of [] \<Rightarrow> True | c # cs \<Rightarrow> \<not> isNumeric K c"
  proof (cases after)
    case Nil
    then show ?thesis
      by simp
  next
    case (Cons a as)
    with c have "delimiter a"
      by simp
    then have "\<not> isNumeric K a"
      using K unfolding reads_decimals_def delimiter_def by blast
    with Cons show ?thesis
      by simp
  qed
  from lexReadInteger_loop_decimal [OF p num nc, of "ctoi K (Some d)"] obtain l' where
    r: "lexReadInteger_loop K (ctoi K (Some d)) l =
         (foldl (\<lambda>i d. wrap_int (wrap_int (i * 10) + ctoi K (Some d))) (ctoi K (Some d)) ds, l')"
    and p': "pending_chars l' = after" and t: "m_currToken l' = m_currToken l"
    by blast
  have "lexReadInteger K l = (decimal_value K (d # ds), l')"
    using d decimal_digit(7,8) [OF d(2)] r by (simp add: lexReadInteger_def decimal_value_def)
  moreover have "m_peekChar l' \<noteq> Some (CHR ''.'')"
    using p' c by (cases after) (auto simp: pending_chars_Nil pending_chars_Cons delimiter_def)
  ultimately have "lexTokenInteger K l = (PT_INTEGER, set_asInteger (decimal_value K (d # ds)) l')"
    by (simp add: lexTokenInteger_def)
  then show ?thesis
    using p' t by auto
qed

text \<open>
  \<^verbatim>\<open>nextToken()\<close> after a token that does not skip the line: whitespace is skipped up
  to the text of the next item.
\<close>

lemma nextToken_whitespace:
  assumes w: "whitespace w" and p: "pending_chars l = w @ r"
    and k: "\<not> skips_line (m_token (m_peekToken l))"
  shows "\<exists>l0. lexToken K (swap_tokens l) = lexToken_loop K l0 \<and> pending_chars l0 = r"
proof -
  have "lexToken K (swap_tokens l) = lexToken_loop K (swap_tokens l)"
    using k by (intro lexToken_no_skip) (simp add: swap_tokens_def)
  moreover from lexToken_loop_whitespace [OF w, of "swap_tokens l" r K] p
  obtain l0 where "lexToken_loop K (swap_tokens l) = lexToken_loop K l0"
    and "pending_chars l0 = r"
    by auto
  ultimately show ?thesis
    by auto
qed

text \<open>\<^verbatim>\<open>nextToken()\<close> on the text of one item of an index group.\<close>

lemma nextToken_lexeme:
  assumes K: "reads_decimals K"
    and w: "whitespace w"
    and x: "case x of Digits ds \<Rightarrow> decimal ds \<and> delimited after | Slash \<Rightarrow> True"
    and p: "pending_chars l = w @ lexeme_text x @ after"
    and k: "\<not> skips_line (m_token (m_peekToken l))"
  shows "\<exists>l'. nextToken K l = Inr l' \<and> item_of (m_peekToken l') = lexeme_item K x \<and>
    pending_chars l' = after"
proof -
  from nextToken_whitespace [OF w p k] obtain l0 where
    eq: "lexToken K (swap_tokens l) = lexToken_loop K l0"
    and p0: "pending_chars l0 = lexeme_text x @ after"
    by blast
  have "\<exists>t l1. lexToken_loop K l0 = Inr (t, l1) \<and> pending_chars l1 = after \<and>
      item_of ((m_peekToken l1)\<lparr>m_token := t\<rparr>) = lexeme_item K x"
  proof (cases x)
    case (Digits ds)
    with x obtain d ds' where ds: "ds = d # ds'" "set (d # ds') \<subseteq> set ''0123456789''"
      and after: "delimited after"
      by (cases ds) (auto simp: decimal_def)
    have d: "d \<in> set ''0123456789''" and ds': "set ds' \<subseteq> set ''0123456789''"
      using ds(2) by auto
    have p0': "m_peekChar l0 = Some d" "pending_chars (nextChar l0) = ds' @ after"
      using p0 Digits ds(1) pending_chars_nextChar [of l0 d "ds' @ after"]
      by (simp_all add: pending_chars_Cons)
    have "isNumeric K d"
      using K d unfolding reads_decimals_def by blast
    then have "lexToken_loop K l0 = Inr (lexTokenInteger K (nextChar l0))"
      using p0'(1) decimal_digit(1-6) [OF d] by (subst lexToken_loop.simps) simp
    moreover from lexTokenInteger_decimal [OF K _ d ds' p0'(2) after] obtain l1 where
      "lexTokenInteger K (nextChar l0) = (PT_INTEGER, l1)" "pending_chars l1 = after"
      "asInteger (m_attribute (m_peekToken l1)) = decimal_value K (d # ds')"
      using p0'(1) by auto
    ultimately show ?thesis
      using Digits ds(1) by (simp add: item_of_def)
  next
    case Slash
    then have "m_peekChar l0 = Some (CHR ''/'')" "pending_chars (nextChar l0) = after"
      using p0 pending_chars_nextChar [of l0 "CHR ''/''" after]
      by (simp_all add: pending_chars_Cons)
    then show ?thesis
      using Slash by (subst lexToken_loop.simps) (simp add: item_of_def)
  qed
  then obtain t l1 where "lexToken_loop K l0 = Inr (t, l1)" "pending_chars l1 = after"
    "item_of ((m_peekToken l1)\<lparr>m_token := t\<rparr>) = lexeme_item K x"
    by blast
  then show ?thesis
    using eq by (auto simp: nextToken_def pending_chars_def split: option.splits)
qed

text \<open>
  \<^verbatim>\<open>nextToken()\<close> at the end of a statement: the end of input gives \<open>PT_EOF\<close>; a newline
  and a comment give \<open>PT_ENDSTATEMENT\<close>.
\<close>

lemma nextToken_ending:
  assumes w: "whitespace w" and e: "ends_statement tail"
    and p: "pending_chars l = w @ tail"
    and k: "\<not> skips_line (m_token (m_peekToken l))"
  shows "\<exists>l'. nextToken K l = Inr l' \<and>
    m_token (m_peekToken l') = (if tail = [] then PT_EOF else PT_ENDSTATEMENT)"
proof -
  from nextToken_whitespace [OF w p k] obtain l0 where
    eq: "lexToken K (swap_tokens l) = lexToken_loop K l0"
    and p0: "pending_chars l0 = tail"
    by blast
  have "\<exists>l1. lexToken_loop K l0 = Inr (if tail = [] then PT_EOF else PT_ENDSTATEMENT, l1)"
  proof (cases tail)
    case Nil
    then have "m_peekChar l0 = None"
      using p0 by (simp add: pending_chars_Nil)
    then show ?thesis
      using Nil by (subst lexToken_loop.simps) simp
  next
    case (Cons c cs)
    then have "m_peekChar l0 = Some c" "c = CHR 0x0A \<or> c = CHR ''#''"
      using p0 e by (simp_all add: pending_chars_Cons ends_statement_def)
    then show ?thesis
      using Cons by (subst lexToken_loop.simps) auto
  qed
  then show ?thesis
    using eq by (auto simp: nextToken_def)
qed

lemma lexeme_item_no_skip [simp]: "item_of t = lexeme_item K x \<Longrightarrow> \<not> skips_line (m_token t)"
  by (cases x; cases "m_token t") (auto simp: item_of_def skips_line_def)

lemma lexeme_item_not_EOF [simp]: "item_of t = lexeme_item K x \<Longrightarrow> m_token t \<noteq> PT_EOF"
  by (cases x; cases "m_token t") (auto simp: item_of_def)

lemma items_head: "\<exists>rest. items K l = item_of (m_peekToken l) # rest"
  by (simp add: items_def tokens.simps [of K l])

lemma spaced_text_Cons [simp]:
  "spaced_text ((w, x) # xs) = w @ lexeme_text x @ spaced_text xs"
  by (simp add: spaced_text_def)

text \<open>
  The items of a well spaced text that the end of a statement follows, after a token
  that does not skip the line: the items of the text, then the token of the end.
\<close>

lemma items_spaced_text:
  assumes "reads_decimals K" and "whitespace w_end" and "ends_statement tail"
    and "well_spaced (w_end @ tail) xs"
    and "pending_chars l = spaced_text xs @ w_end @ tail"
    and "\<not> skips_line (m_token (m_peekToken l))" and "m_token (m_peekToken l) \<noteq> PT_EOF"
  shows "\<exists>rest. items K l =
    item_of (m_peekToken l) # map (lexeme_item K \<circ> snd) xs @
    Other (if tail = [] then PT_EOF else PT_ENDSTATEMENT) # rest"
  using assms(4-)
proof (induction xs arbitrary: l)
  case Nil
  from nextToken_ending [OF assms(2,3) _ Nil.prems(3), of K] Nil.prems(2) obtain l' where
    l': "nextToken K l = Inr l'"
    and t: "m_token (m_peekToken l') = (if tail = [] then PT_EOF else PT_ENDSTATEMENT)"
    by auto
  obtain rest where "items K l' = item_of (m_peekToken l') # rest"
    using items_head by blast
  moreover have "item_of (m_peekToken l') = Other (if tail = [] then PT_EOF else PT_ENDSTATEMENT)"
    using t by (simp add: item_of_def)
  ultimately show ?case
    using items_step [OF l'] Nil.prems(4) by simp
next
  case (Cons wx xs)
  obtain w x where wx: "wx = (w, x)"
    by (cases wx) auto
  have w: "whitespace w" and ws: "well_spaced (w_end @ tail) xs"
    using Cons.prems(1) wx by (cases x; simp)+
  have x: "case x of Digits ds \<Rightarrow> decimal ds \<and> delimited (spaced_text xs @ w_end @ tail)
                   | Slash \<Rightarrow> True"
    using Cons.prems(1) wx by (cases x) auto
  have "pending_chars l = w @ lexeme_text x @ spaced_text xs @ w_end @ tail"
    using Cons.prems(2) wx by simp
  from nextToken_lexeme [OF assms(1) w x this Cons.prems(3)] obtain l' where
    l': "nextToken K l = Inr l'" and i: "item_of (m_peekToken l') = lexeme_item K x"
    and p: "pending_chars l' = spaced_text xs @ w_end @ tail"
    by blast
  from Cons.IH [OF ws p] i obtain rest where
    "items K l' = lexeme_item K x # map (lexeme_item K \<circ> snd) xs @
       Other (if tail = [] then PT_EOF else PT_ENDSTATEMENT) # rest"
    by auto
  then show ?case
    using items_step [OF l'] Cons.prems(4) wx by simp
qed

lemma spaced_text_append [simp]: "spaced_text (xs @ ys) = spaced_text xs @ spaced_text ys"
  by (simp add: spaced_text_def)

lemma spaced_text_optional [simp]: "spaced_text (optional_lexemes t) = optional_text t"
  by (cases t) simp_all

lemma spaced_text_group [simp]: "spaced_text (group_lexemes w g) = w @ group_text g"
  by (cases g) simp_all

lemma spaced_text_groups: "spaced_text (groups_lexemes wgs) = groups_text wgs"
  by (induction wgs) (auto simp: groups_lexemes_def groups_text_def)

lemma items_optional:
  "map (\<lambda>x. lexeme_item K (snd x)) (optional_lexemes t) =
     optional (map_option (decimal_value K) t)"
  by (cases t) simp_all

lemma items_group:
  "map (\<lambda>x. lexeme_item K (snd x)) (group_lexemes w g) = group_items (group_value K g)"
  by (cases g) (simp_all add: items_optional group_value_def)

lemma items_groups:
  "map (lexeme_item K \<circ> snd) (groups_lexemes wgs) =
     concat (map (\<lambda>(w, g). group_items (group_value K g)) wgs)"
  by (induction wgs) (auto simp: groups_lexemes_def items_group comp_def)

lemma delimited_whitespace: "whitespace w \<Longrightarrow> w \<noteq> [] \<Longrightarrow> delimited (w @ str)"
  by (cases w) (auto simp: whitespace_def delimiter_def)

lemma delimited_ending: "whitespace w \<Longrightarrow> ends_statement tail \<Longrightarrow> delimited (w @ tail)"
  by (cases w; cases tail) (auto simp: whitespace_def ends_statement_def delimiter_def)

lemma whitespace_Nil [simp]: "whitespace []"
  by (simp add: whitespace_def)

lemma well_spaced_optional:
  assumes "\<forall>ds\<in>set_option t. decimal ds" and "well_spaced after xs"
    and "delimited (spaced_text xs @ after)"
  shows "well_spaced after (optional_lexemes t @ xs)"
  using assms by (cases t) simp_all

lemma delimiter_slash [simp]: "delimiter (CHR ''/'')"
  by (simp add: delimiter_def)

lemma well_spaced_group:
  assumes "whitespace w" and "\<forall>ds\<in>set_faceGroup g. decimal ds"
    and "well_spaced after xs" and "delimited (spaced_text xs @ after)"
  shows "well_spaced after (group_lexemes w g @ xs)"
proof (cases g)
  case (V v)
  with assms show ?thesis
    by simp
next
  case (VT v t)
  have "well_spaced after (optional_lexemes t @ xs)"
    using assms VT by (intro well_spaced_optional) auto
  with assms VT show ?thesis
    by simp
next
  case (VTN v t n)
  have n: "well_spaced after (optional_lexemes n @ xs)"
    using assms VTN by (intro well_spaced_optional) auto
  have "well_spaced after (optional_lexemes t @ ([], Slash) # optional_lexemes n @ xs)"
    using assms VTN n by (intro well_spaced_optional) auto
  with assms VTN show ?thesis
    by simp
qed

lemma well_spaced_groups:
  assumes "\<forall>(w, g)\<in>set wgs. w \<noteq> [] \<and> whitespace w \<and> (\<forall>ds\<in>set_faceGroup g. decimal ds)"
    and "delimited after"
  shows "well_spaced after (groups_lexemes wgs) \<and>
    delimited (spaced_text (groups_lexemes wgs) @ after)"
  using assms(1)
proof (induction wgs)
  case Nil
  show ?case
    using assms(2) by (simp add: groups_lexemes_def)
next
  case (Cons wg wgs)
  obtain w g where wg: "wg = (w, g)"
    by (cases wg) auto
  have w: "w \<noteq> []" "whitespace w" and g: "\<forall>ds\<in>set_faceGroup g. decimal ds"
    using Cons.prems wg by auto
  from Cons have ih: "well_spaced after (groups_lexemes wgs)"
    "delimited (spaced_text (groups_lexemes wgs) @ after)"
    by auto
  have "groups_lexemes (wg # wgs) = group_lexemes w g @ groups_lexemes wgs"
    by (simp add: groups_lexemes_def wg)
  then show ?case
    using well_spaced_group [OF w(2) g ih] delimited_whitespace [OF w(2,1)] by simp
qed

lemma open_ended_group_value [simp]: "open_ended (group_value K g) = open_ended g"
  by (cases g) (simp_all add: group_value_def)

text \<open>
  Claim C2, amended. Let the parser be about to dispatch a face keyword, and let the
  characters after the keyword be index groups of decimal numerals of any length, each
  group after whitespace, then whitespace and the end of the statement: a newline, a
  comment, or the end of input. Let no group but the last end with a separator. Then
  the dispatch loop reads the statement and makes one call of \<^verbatim>\<open>onFace\<close>: the count is
  the number of the groups, the index arrays before the array that ended the loop are
  those of the groups in their order, and in each of them a texture or normal slot
  without an integer (no separator, or a separator and no integer) holds 0. The index
  of a numeral is the \<^verbatim>\<open>int\<close> that the lexer reads of it, wrapped at 32 bits, as
  \<^verbatim>\<open>uint64_t\<close>. The parse goes on from the parser after the statement.
\<close>

theorem C2_face_statement:
  assumes "reads_decimals K"
    and "m_token (m_peekToken (m_lexer p)) = PT_FACE"
    and "pending_chars (m_lexer p) = groups_text wgs @ w_end @ tail"
    and "\<forall>(w, g)\<in>set wgs. w \<noteq> [] \<and> whitespace w \<and> (\<forall>ds\<in>set_faceGroup g. decimal ds)"
    and "whitespace w_end"
    and "ends_statement tail"
    and "\<forall>(w, g)\<in>set (butlast wgs). \<not> open_ended g"
  shows "\<exists>l p'. nextToken K (m_lexer p) = Inr l \<and>
    parseFace K (p\<lparr>m_lexer := l\<rparr>) = Inr p' \<and>
    parse K p = parse K p' \<and>
    m_parser p' = m_parser p @
      [OnFace (map (\<lambda>(w, g). group_indices (group_value K g)) wgs @ [(0, 0, 0)]) (length wgs)]"
proof -
  define gs where "gs = map (\<lambda>(w, g). group_value K g) wgs"
  define t where "t = Other (if tail = [] then PT_EOF else PT_ENDSTATEMENT)"
  have t: "t \<noteq> Other PT_SEPARATOR" "\<not> is_Integer t"
    by (simp_all add: t_def)
  have ws: "well_spaced (w_end @ tail) (groups_lexemes wgs)"
    using well_spaced_groups [OF assms(4) delimited_ending [OF assms(5,6)]] by simp
  have "pending_chars (m_lexer p) = spaced_text (groups_lexemes wgs) @ w_end @ tail"
    using assms(3) by (simp add: spaced_text_groups)
  from items_spaced_text [OF assms(1,5,6) ws this] assms(2) obtain rest where
    "items K (m_lexer p) =
       item_of (m_peekToken (m_lexer p)) #
       map (lexeme_item K \<circ> snd) (groups_lexemes wgs) @ t # rest"
    by (auto simp: skips_line_def t_def)
  then have its: "items K (m_lexer p) =
      item_of (m_peekToken (m_lexer p)) # concat (map group_items gs) @ t # rest"
    using items_groups [of K wgs] by (simp add: gs_def comp_def split_def)
  obtain y ys where "concat (map group_items gs) @ t # rest = y # ys"
    by (cases "concat (map group_items gs) @ t # rest") auto
  with its items_Cons2 [of K "m_lexer p" _ y ys] obtain l where
    l: "nextToken K (m_lexer p) = Inr l"
    and i: "items K l = concat (map group_items gs) @ t # rest"
    by auto
  have "butlast gs = map (\<lambda>(w, g). group_value K g) (butlast wgs)"
    by (simp add: gs_def map_butlast)
  then have "\<forall>g\<in>set (butlast gs). \<not> open_ended g"
    using assms(7) by auto
  from parseFace_groups [of K "p\<lparr>m_lexer := l\<rparr>" gs t rest] i this t
  obtain p' where p': "parseFace K (p\<lparr>m_lexer := l\<rparr>) = Inr p'"
    and ev: "m_parser p' = m_parser p @ [OnFace (map group_indices gs @ [(0, 0, 0)]) (length gs)]"
    by auto
  have "m_token (m_currToken l) = PT_FACE"
    using nextToken_currToken [OF l] assms(2) by simp
  then have "parse K p = parse K p'"
    using l p' by (subst parse.simps) simp
  then show ?thesis
    using l p' ev by (auto simp: gs_def comp_def split_def)
qed

text \<open>
  Claim C2, the amended statement on the example of the claim, the input
  \<^verbatim>\<open>f 1/2/3 4//5 6\<close> with its newline: one call of \<^verbatim>\<open>onFace\<close> with the triples
  (1,2,3), (4,0,5), (6,0,0) and the count 3.
\<close>

theorem C2_face_statement_witness:
  "reads_decimals ascii
   \<and> m_token (m_peekToken (m_lexer (the (constructed ascii garbage
         (''f 1/2/3 4//5 6'' @ [CHR 0x0A]))))) = PT_FACE
   \<and> pending_chars (m_lexer (the (constructed ascii garbage
         (''f 1/2/3 4//5 6'' @ [CHR 0x0A])))) =
       groups_text [('' '', VTN ''1'' (Some ''2'') (Some ''3'')),
                    ('' '', VTN ''4'' None (Some ''5'')),
                    ('' '', V ''6'')] @ [] @ [CHR 0x0A]
   \<and> whitespace '' '' \<and> decimal ''1'' \<and> decimal ''2'' \<and> decimal ''3'' \<and> decimal ''4''
   \<and> decimal ''5'' \<and> decimal ''6'' \<and> whitespace [] \<and> ends_statement [CHR 0x0A]
   \<and> \<not> open_ended (VTN ''1'' (Some ''2'') (Some ''3''))
   \<and> \<not> open_ended (VTN ''4'' None (Some ''5''))
   \<and> (\<exists>l p'.
         nextToken ascii (m_lexer (the (constructed ascii garbage
           (''f 1/2/3 4//5 6'' @ [CHR 0x0A])))) = Inr l \<and>
         parseFace ascii ((the (constructed ascii garbage
           (''f 1/2/3 4//5 6'' @ [CHR 0x0A])))\<lparr>m_lexer := l\<rparr>) = Inr p' \<and>
         parse ascii (the (constructed ascii garbage (''f 1/2/3 4//5 6'' @ [CHR 0x0A]))) =
           parse ascii p' \<and>
         m_parser p' = [OnFace [(1, 2, 3), (4, 0, 5), (6, 0, 0), (0, 0, 0)] 3])"
proof -
  define p where "p = the (constructed ascii garbage (''f 1/2/3 4//5 6'' @ [CHR 0x0A]))"
  define wgs where "wgs = [('' '', VTN ''1'' (Some ''2'') (Some ''3'')),
                  ('' '', VTN ''4'' None (Some ''5'')),
                  ('' '', V ''6'')]"
  have K: "reads_decimals ascii"
    by (simp add: reads_decimals_def ascii_def)
  have k: "m_token (m_peekToken (m_lexer p)) = PT_FACE"
    unfolding p_def by code_simp
  have c: "pending_chars (m_lexer p) = groups_text wgs @ [] @ [CHR 0x0A]"
    unfolding p_def wgs_def by code_simp
  have d: "whitespace '' ''" "decimal ''1''" "decimal ''2''" "decimal ''3''" "decimal ''4''"
    "decimal ''5''" "decimal ''6''" "whitespace []" "ends_statement [CHR 0x0A]"
    by (simp_all add: whitespace_def decimal_def ends_statement_def)
  then have g: "\<forall>(w, g)\<in>set wgs. w \<noteq> [] \<and> whitespace w \<and> (\<forall>ds\<in>set_faceGroup g. decimal ds)"
    by (simp add: wgs_def)
  have e: "\<forall>(w, g)\<in>set (butlast wgs). \<not> open_ended g"
    by (simp add: wgs_def)
  have v: "map (\<lambda>(w, g). group_indices (group_value ascii g)) wgs @ [(0, 0, 0)] =
      [(1, 2, 3), (4, 0, 5), (6, 0, 0), (0, 0, 0)]"
    unfolding wgs_def by code_simp
  have m: "m_parser p = []"
    unfolding p_def by code_simp
  from C2_face_statement [OF K k c g d(8,9) e] K k c d
  show ?thesis
    unfolding v m by (simp add: p_def wgs_def numeral_3_eq_3)
qed

text \<open>
  The same statement where the end of input, or a comment, ends it, and a statement
  whose numerals do not fit an \<^verbatim>\<open>int\<close>: 4294967296 wraps to 0 and 2147483648 to
  -2147483648, which is 18446744071562067968 as \<^verbatim>\<open>uint64_t\<close>.
\<close>

lemma face_statement_at_end_of_input:
  "delivered (KAbstractObjParser_parse ascii garbage ''f 1/2/3 4//5 6'') =
   Inr (True, [OnFace [(1, 2, 3), (4, 0, 5), (6, 0, 0), (0, 0, 0)] 3])"
  by code_simp

lemma face_statement_before_comment:
  "delivered (KAbstractObjParser_parse ascii garbage (''f 1/2/3 4//5 6#c'' @ [CHR 0x0A])) =
   Inr (True, [OnFace [(1, 2, 3), (4, 0, 5), (6, 0, 0), (0, 0, 0)] 3])"
  by code_simp

lemma face_indices_wrap:
  "delivered (KAbstractObjParser_parse ascii garbage
     (''f 4294967296 2147483648'' @ [CHR 0x0A])) =
   Inr (True, [OnFace [(0, 0, 0), (18446744071562067968, 0, 0), (0, 0, 0)] 2])"
  by code_simp

text \<open>
  Claim C2, as stated: the count is the number of the whitespace-separated index groups
  of the line, and a slot whose separator no integer follows holds 0. The line
  \<^verbatim>\<open>f 1/ 2\<close> has the two groups \<^verbatim>\<open>1/\<close> and \<^verbatim>\<open>2\<close>; the lexer skips the whitespace, and
  \<^verbatim>\<open>parseFaceIndices\<close> takes the integer after the separator for the texture index of
  the first group: one triple (1,2,0) is delivered, with the count 1.
\<close>

theorem C2_open_ended_group_absorbs_the_next:
  "delivered (KAbstractObjParser_parse ascii garbage
     (''f'' @ face_text [('' '', VT ''1'' None), ('' '', V ''2'')] [])) =
   Inr (True, [OnFace [(1, 2, 0), (0, 0, 0)] 1])"
  by code_simp

subsection \<open>The directives that skip their line\<close>

lemma nextLine_loop_line:
  assumes "CHR 0x0A \<notin> set line" and "c \<noteq> Some (CHR 0x0A)"
  shows "nextLine_loop c (line @ CHR 0x0A # after) = (Some (CHR 0x0A), after)"
  using assms
proof (induction line arbitrary: c)
  case Nil
  then show ?case
    by (cases after) simp_all
next
  case (Cons x line)
  then have "Some x \<noteq> Some (CHR 0x0A)" "CHR 0x0A \<notin> set line"
    by auto
  with Cons.IH [of "Some x"] Cons.prems(2) show ?case
    by simp
qed

lemma pending_chars_nextLine:
  assumes "pending_chars l = line @ CHR 0x0A # after" and "CHR 0x0A \<notin> set line"
  shows "pending_chars (nextLine l) = after"
proof (cases line)
  case Nil
  with assms(1) have "m_peekChar l = Some (CHR 0x0A)" "m_reader l = after"
    by (simp_all add: pending_chars_Cons)
  then have "nextLine_loop (m_peekChar l) (m_reader l) = (Some (CHR 0x0A), after)"
    by (cases after) simp_all
  then show ?thesis
    by (cases after) (simp_all add: nextLine_def pending_chars_def reader_next_def)
next
  case (Cons x xs)
  with assms have "m_peekChar l = Some x" "m_reader l = xs @ CHR 0x0A # after"
    "x \<noteq> CHR 0x0A" "CHR 0x0A \<notin> set xs"
    by (auto simp: pending_chars_Cons)
  then have "nextLine_loop (m_peekChar l) (m_reader l) = (Some (CHR 0x0A), after)"
    using nextLine_loop_line [of xs "Some x" after] by simp
  then show ?thesis
    by (cases after) (simp_all add: nextLine_def pending_chars_def reader_next_def)
qed

text \<open>
  The line of a directive whose keyword is \<^verbatim>\<open>g\<close>, \<^verbatim>\<open>o\<close>, \<^verbatim>\<open>s\<close> or \<^verbatim>\<open>mtllib\<close>: when the
  token after the keyword is requested, it is lexed from the characters after the
  newline of the line, whatever the rest of the line is; and the dispatch loop has no
  case for the keyword.
\<close>

lemma directive_line_is_skipped:
  assumes "skips_line (m_token (m_peekToken l))"
    and "pending_chars l = line @ CHR 0x0A # after" and "CHR 0x0A \<notin> set line"
  shows "\<exists>l0. pending_chars l0 = after \<and> m_currToken l0 = m_peekToken l \<and>
    nextToken K l =
      (case lexToken_loop K l0 of
         Inl e \<Rightarrow> Inl e
       | Inr (t, l') \<Rightarrow> Inr (l'\<lparr>m_peekToken := (m_peekToken l')\<lparr>m_token := t\<rparr>\<rparr>))"
proof -
  have "lexToken K (swap_tokens l) = lexToken_loop K (nextLine (swap_tokens l))"
    using assms(1) by (simp add: lexToken_skips_line swap_tokens_def)
  moreover have "pending_chars (nextLine (swap_tokens l)) = after"
    using assms(2,3) by (intro pending_chars_nextLine [of _ line]) simp_all
  moreover have "m_currToken (nextLine (swap_tokens l)) = m_peekToken l"
    by (simp add: swap_tokens_def)
  ultimately show ?thesis
    unfolding nextToken_def by (intro exI [of _ "nextLine (swap_tokens l)"]) simp
qed

lemma directive_is_not_dispatched:
  assumes "nextToken K (m_lexer p) = Inr l" and "skips_line (m_token (m_currToken l))"
  shows "parse K p = parse K (p\<lparr>m_lexer := l\<rparr>)"
  using assms by (subst parse.simps) (auto simp: skips_line_def)

end
